theory Spec2Isabelle
  imports Main "HOL-Library.Sublist"
begin

section \<open>Python strings\<close>

text \<open>
  A Python \<open>str\<close> is modelled as a \<open>string\<close>, one \<open>char\<close> per code point; the model
  therefore covers the code points below 256. Within that range the characters for which
  \<open>str.isspace\<close> holds (the ones \<open>\s\<close>, \<open>str.strip\<close> and \<open>str.split\<close> treat as white space)
  are the twelve listed in \<open>whitespace\<close>, and case-insensitive matching of an ASCII
  letter is ASCII case folding. Above that range \<open>re.IGNORECASE\<close> matches three more
  characters against the letters of the patterns used here (U+0130 and U+0131 against
  \<open>I\<close>, U+017F against \<open>S\<close>); texts that contain characters from 256 on have no term in
  this model, and every statement about the parser below is a statement about texts of
  code points below 256.
\<close>

definition LF :: char where
  "LF = CHR 0x0A"

definition CR :: char where
  "CR = CHR 0x0D"

definition whitespace :: "char list" where
  "whitespace =
     [CHR 0x09, CHR 0x0A, CHR 0x0B, CHR 0x0C, CHR 0x0D, CHR 0x1C, CHR 0x1D, CHR 0x1E,
      CHR 0x1F, CHR 0x20, CHR 0x85, CHR 0xA0]"

definition isspace :: "char \<Rightarrow> bool" where
  "isspace c = (c \<in> set whitespace)"

definition lower_char :: "char \<Rightarrow> char" where
  "lower_char c =
     (case map_of (zip ''ABCDEFGHIJKLMNOPQRSTUVWXYZ'' ''abcdefghijklmnopqrstuvwxyz'') c of
        Some l \<Rightarrow> l
      | None \<Rightarrow> c)"

definition upper_char :: "char \<Rightarrow> char" where
  "upper_char c =
     (case map_of (zip ''abcdefghijklmnopqrstuvwxyz'' ''ABCDEFGHIJKLMNOPQRSTUVWXYZ'') c of
        Some u \<Rightarrow> u
      | None \<Rightarrow> c)"

text \<open>\<open>s.upper()\<close> and \<open>s.lower()\<close>, on the ASCII letters.\<close>

definition upper :: "string \<Rightarrow> string" where
  "upper s = map upper_char s"

definition lower :: "string \<Rightarrow> string" where
  "lower s = map lower_char s"

text \<open>\<open>s.strip()\<close>: white space removed at both ends.\<close>

definition lstrip :: "string \<Rightarrow> string" where
  "lstrip s = dropWhile isspace s"

definition rstrip :: "string \<Rightarrow> string" where
  "rstrip s = rev (dropWhile isspace (rev s))"

definition strip :: "string \<Rightarrow> string" where
  "strip s = rstrip (lstrip s)"

text \<open>
  \<open>s.startswith(p)\<close> is \<open>prefix p s\<close>; under \<open>re.IGNORECASE\<close> a literal of ASCII
  letters matches up to the case of those letters (on code points below 256; see above
  for the characters beyond).
\<close>

definition startswith_ci :: "string \<Rightarrow> string \<Rightarrow> bool" where
  "startswith_ci p s = prefix (lower p) (lower s)"

section \<open>The response parser of \<open>analyze_text_for_interests\<close>\<close>

text \<open>
  \<open>re.search\<close> tries the pattern at every position from the left, the end of the text
  included, and returns the first match.
\<close>

fun re_search :: "(string \<Rightarrow> 'a option) \<Rightarrow> string \<Rightarrow> 'a option" where
  "re_search m [] = m []"
| "re_search m (c # cs) = (case m (c # cs) of Some g \<Rightarrow> Some g | None \<Rightarrow> re_search m cs)"

text \<open>
  The greedy \<open>\s*\<close> first takes the whole run of white space; when the rest of the
  pattern fails there it gives characters back one at a time. \<open>backtrack k j s\<close> tries
  the continuation \<open>k\<close> after \<open>j\<close>, \<open>j - 1\<close>, \dots, \<open>0\<close> characters of white space.
\<close>

fun backtrack :: "(string \<Rightarrow> 'a option) \<Rightarrow> nat \<Rightarrow> string \<Rightarrow> 'a option" where
  "backtrack k 0 s = k s"
| "backtrack k (Suc j) s =
     (case k (drop (Suc j) s) of Some g \<Rightarrow> Some g | None \<Rightarrow> backtrack k j s)"

definition ws_star :: "(string \<Rightarrow> 'a option) \<Rightarrow> string \<Rightarrow> 'a option" where
  "ws_star k s = backtrack k (length (takeWhile isspace s)) s"

text \<open>\<open>(.+)\<close>: one or more characters other than the line feed, as many as possible.\<close>

definition dot_plus :: "string \<Rightarrow> string option" where
  "dot_plus s = (let g = takeWhile (\<lambda>c. c \<noteq> LF) s in if g = [] then None else Some g)"

text \<open>\<open>(.+)\<close> under \<open>re.DOTALL\<close>: one or more characters, up to the end of the text.\<close>

definition dot_plus_all :: "string \<Rightarrow> string option" where
  "dot_plus_all s = (if s = [] then None else Some s)"

text \<open>
  \<open>(YES|NO)\<close> under \<open>re.IGNORECASE\<close>, on code points below 256; the group is the text
  as it was matched.
\<close>

definition yes_or_no :: "string \<Rightarrow> string option" where
  "yes_or_no s =
     (if startswith_ci ''YES'' s then Some (take 3 s)
      else if startswith_ci ''NO'' s then Some (take 2 s)
      else None)"

text \<open>The three patterns, each anchored at the start of its argument.\<close>

definition name_pattern :: "string \<Rightarrow> string option" where
  "name_pattern s = (if prefix ''NAME:'' s then ws_star dot_plus (drop 5 s) else None)"

definition experience_pattern :: "string \<Rightarrow> string option" where
  "experience_pattern s =
     (if startswith_ci ''EXPERIENCE:'' s then ws_star yes_or_no (drop 11 s) else None)"

definition summary_pattern :: "string \<Rightarrow> string option" where
  "summary_pattern s = (if prefix ''SUMMARY:'' s then ws_star dot_plus_all (drop 8 s) else None)"

text \<open>
  The values the parser computes from the oracle's answer. \<open>has_experience\<close> is
  \<open>experience_match and experience_match.group(1).upper() == "YES"\<close>: Python's \<open>and\<close>
  returns its left operand when that is falsy, so without a match the value is Python's
  \<open>None\<close> (here \<open>None\<close>), and with a match it is the boolean of the comparison.
\<close>

definition person_name :: "string \<Rightarrow> string" where
  "person_name analysis =
     (case re_search name_pattern analysis of Some g \<Rightarrow> strip g | None \<Rightarrow> ''Unknown'')"

definition has_experience :: "string \<Rightarrow> bool option" where
  "has_experience analysis =
     (case re_search experience_pattern analysis of
        None \<Rightarrow> None
      | Some g \<Rightarrow> Some (upper g = ''YES''))"

definition summary :: "string \<Rightarrow> string" where
  "summary analysis =
     (case re_search summary_pattern analysis of
        Some g \<Rightarrow> strip g
      | None \<Rightarrow> ''No summary available'')"

text \<open>The tuple \<open>(has_experience, person_name, summary)\<close> that the function returns.\<close>

definition parse_response :: "string \<Rightarrow> bool option \<times> string \<times> string" where
  "parse_response analysis = (has_experience analysis, person_name analysis, summary analysis)"

text \<open>Python's truth value of the flag, as \<open>if has_experience:\<close> tests it.\<close>

fun truthy :: "bool option \<Rightarrow> bool" where
  "truthy None = False"
| "truthy (Some b) = b"

section \<open>The candidate log writer \<open>save_candidate_to_file\<close>\<close>

text \<open>
  The log file is modelled by its text; a file that does not exist yet is the empty text
  (mode \<open>"a"\<close> creates it). The f-string of the entry begins with a line feed, directly
  after the opening quotes.
\<close>

definition separator :: string where
  "separator = replicate 60 (CHR ''='')"

definition entry :: "string \<Rightarrow> string \<Rightarrow> string \<Rightarrow> string \<Rightarrow> string" where
  "entry timestamp name url reason =
     [LF] @ separator @ [LF] @
     ''Date: '' @ timestamp @ [LF] @
     ''Name: '' @ name @ [LF] @
     ''URL: '' @ url @ [LF] @
     ''Reason: '' @ reason @ [LF] @
     separator @ [LF] @
     [LF]"

text \<open>
  Reading in text mode translates the line ends \<open>\r\n\<close> and \<open>\r\<close> to \<open>\n\<close> (Python's
  universal newlines), and \<open>readlines\<close> cuts the text after every line feed.
\<close>

fun universal_newlines :: "string \<Rightarrow> string" where
  "universal_newlines [] = []"
| "universal_newlines [c] = (if c = CR then [LF] else [c])"
| "universal_newlines (c # d # cs) =
     (if c = CR then (if d = LF then LF # universal_newlines cs
                      else LF # universal_newlines (d # cs))
      else c # universal_newlines (d # cs))"

fun readlines :: "string \<Rightarrow> string list" where
  "readlines [] = []"
| "readlines (c # cs) =
     (if c = LF then [c] # readlines cs
      else (case readlines cs of [] \<Rightarrow> [[c]] | l # ls \<Rightarrow> (c # l) # ls))"

definition candidate_count :: "string \<Rightarrow> nat" where
  "candidate_count file =
     length (filter (prefix ''Name:'') (readlines (universal_newlines file)))"

text \<open>
  The writer appends the entry and then counts the \<open>Name:\<close> lines of the whole file; the
  model returns the new file text and the count that is printed.
\<close>

definition save_candidate_to_file ::
  "string \<Rightarrow> string \<Rightarrow> string \<Rightarrow> string \<Rightarrow> string \<Rightarrow> string \<times> nat" where
  "save_candidate_to_file timestamp name url reason file =
     (let file' = file @ entry timestamp name url reason
      in (file', candidate_count file'))"

section \<open>The session loop of \<open>main\<close>\<close>

text \<open>
  The browser, the oracle, the clock and the operator are outside the program. What they
  answer during one pass of the loop is a \<open>profile\<close>: the outcome of the bounded wait
  for the profile element (\<open>WebDriverWait.until\<close> raises \<open>TimeoutException\<close>), the
  outcome of \<open>client.generate\<close>, the current URL, the time, the operator's answer at the
  prompt of debug mode, and the outcome of the wait for the skip button.
\<close>

datatype exn = TimeoutException | OllamaError

record profile =
  page :: "exn + string"
  generate :: "exn + string"
  current_url :: string
  now :: string
  answer :: string
  skip_wait :: "exn option"

record session =
  profile_count :: nat
  log_file :: string
  reported :: "nat list"
  prompts :: nat

definition get_page_text :: "profile \<Rightarrow> exn + string" where
  "get_page_text p = page p"

definition get_profile_url :: "profile \<Rightarrow> string" where
  "get_profile_url p = current_url p"

text \<open>\<open>click_skip_button\<close> returns \<open>True\<close> after the click, or the wait raises.\<close>

definition click_skip_button :: "profile \<Rightarrow> exn + bool" where
  "click_skip_button p = (case skip_wait p of Some e \<Rightarrow> Inl e | None \<Rightarrow> Inr True)"

definition analyze_text_for_interests :: "profile \<Rightarrow> string \<Rightarrow> exn + (bool option \<times> string \<times> string)" where
  "analyze_text_for_interests p text =
     (case generate p of Inl e \<Rightarrow> Inl e | Inr analysis \<Rightarrow> Inr (parse_response analysis))"

datatype control = Continue | Break | Raise exn

text \<open>
  The last statement of the loop body: click the skip button; when the call returns a
  falsy value the operator is prompted.
\<close>

definition advance :: "profile \<Rightarrow> session \<Rightarrow> control \<times> session" where
  "advance p s =
     (case click_skip_button p of
        Inl e \<Rightarrow> (Raise e, s)
      | Inr clicked \<Rightarrow> (Continue, if clicked then s else s\<lparr>prompts := prompts s + 1\<rparr>))"

definition decide :: "profile \<Rightarrow> bool option \<times> string \<times> string \<Rightarrow> session \<Rightarrow> session" where
  "decide p verdict s =
     (case verdict of (flag, name, reason) \<Rightarrow>
        if truthy flag then
          (case save_candidate_to_file (now p) name (get_profile_url p) reason (log_file s) of
             (file', n) \<Rightarrow> s\<lparr>log_file := file', reported := reported s @ [n]\<rparr>)
        else s)"

definition iteration :: "bool \<Rightarrow> profile \<Rightarrow> session \<Rightarrow> control \<times> session" where
  "iteration debug p s0 =
     (let s = s0\<lparr>profile_count := profile_count s0 + 1\<rparr> in
      case get_page_text p of
        Inl e \<Rightarrow> (Raise e, s)
      | Inr page_text \<Rightarrow>
          if page_text = [] then advance p s
          else
            (case analyze_text_for_interests p page_text of
               Inl e \<Rightarrow> (Raise e, s)
             | Inr verdict \<Rightarrow>
                 let s' = decide p verdict s in
                 if debug then
                   (if lower (answer p) = ''q'' then (Break, s')
                    else if lower (answer p) \<noteq> ''y'' then (Break, s')
                    else advance p s')
                 else advance p s'))"

text \<open>
  \<open>while True\<close>: the loop ends by \<open>break\<close> or by an exception that nothing in \<open>main\<close>
  catches (the \<open>try\<close> has a \<open>finally\<close> clause only). The list holds what the outside
  world answers in the passes to come; when it is used up the loop is still running.
\<close>

datatype outcome = Returned bool | Uncaught exn | Running

fun session_loop :: "bool \<Rightarrow> profile list \<Rightarrow> session \<Rightarrow> outcome \<times> session" where
  "session_loop debug [] s = (Running, s)"
| "session_loop debug (p # ps) s =
     (case iteration debug p s of
        (Continue, s') \<Rightarrow> session_loop debug ps s'
      | (Break, s') \<Rightarrow> (Returned True, s')
      | (Raise e, s') \<Rightarrow> (Uncaught e, s'))"

text \<open>
  \<open>main\<close>: the model must be among the models that \<open>client.list()\<close> reports, then the
  loop starts with a counter of 0 on the log file as it is.
\<close>

definition main :: "string \<Rightarrow> bool \<Rightarrow> exn + string list \<Rightarrow> profile list \<Rightarrow> string \<Rightarrow> outcome \<times> session" where
  "main model debug listing ps file =
     (let s = \<lparr>profile_count = 0, log_file = file, reported = [], prompts = 0\<rparr> in
      case listing of
        Inl e \<Rightarrow> (Uncaught e, s)
      | Inr available_models \<Rightarrow>
          if model \<notin> set available_models then (Returned False, s)
          else session_loop debug ps (s\<lparr>prompts := 1\<rparr>))"

section \<open>The formatter \<open>format_text_with_line_breaks\<close>\<close>

text \<open>\<open>text.split('\n')\<close> and \<open>sep.join(parts)\<close>.\<close>

fun split_on :: "char \<Rightarrow> string \<Rightarrow> string list" where
  "split_on d [] = [[]]"
| "split_on d (c # cs) =
     (if c = d then [] # split_on d cs
      else (case split_on d cs of [] \<Rightarrow> [[c]] | l # ls \<Rightarrow> (c # l) # ls))"

fun join :: "string \<Rightarrow> string list \<Rightarrow> string" where
  "join sep [] = []"
| "join sep [x] = x"
| "join sep (x # y # ys) = x @ sep @ join sep (y # ys)"

text \<open>\<open>s.split()\<close>: the maximal runs of characters that are not white space.\<close>

fun split_acc :: "string \<Rightarrow> string \<Rightarrow> string list" where
  "split_acc cur [] = (if cur = [] then [] else [cur])"
| "split_acc cur (c # cs) =
     (if isspace c then (if cur = [] then split_acc [] cs else cur # split_acc [] cs)
      else split_acc (cur @ [c]) cs)"

definition split_ws :: "string \<Rightarrow> string list" where
  "split_ws s = split_acc [] s"

text \<open>
  The loop that fills \<open>content_lines\<close> (or \<open>formatted_lines\<close>) from the words:
  \<open>current_line\<close> collects words and is flushed when it holds \<open>words_per_line\<close> of
  them, and once more after the loop when it is not empty.
\<close>

fun wrap_loop :: "int \<Rightarrow> string list \<Rightarrow> string list \<Rightarrow> string list" where
  "wrap_loop words_per_line current_line [] =
     (if current_line = [] then [] else [join '' '' current_line])"
| "wrap_loop words_per_line current_line (w # ws) =
     (let current_line' = current_line @ [w] in
      if int (length current_line') \<ge> words_per_line
      then join '' '' current_line' # wrap_loop words_per_line [] ws
      else wrap_loop words_per_line current_line' ws)"

definition wrap :: "int \<Rightarrow> string list \<Rightarrow> string list" where
  "wrap words_per_line ws = wrap_loop words_per_line [] ws"

definition headers :: "string list" where
  "headers = [''Date:'', ''Name:'', ''URL:'', ''Reason:'']"

definition is_header :: "string \<Rightarrow> bool" where
  "is_header line = list_ex (\<lambda>header. prefix header line) headers"

definition is_separator :: "string \<Rightarrow> bool" where
  "is_separator line = prefix ''===='' (strip line)"

text \<open>The body of the loop over the lines: the lines that one input line becomes.\<close>

definition format_line :: "int \<Rightarrow> string \<Rightarrow> string list" where
  "format_line words_per_line line =
     (if strip line = [] \<or> is_separator line then [line]
      else if is_header line then
        (if CHR '':'' \<in> set line then
           (let header_part = takeWhile (\<lambda>c. c \<noteq> CHR '':'') line;
                content_part = strip (drop 1 (dropWhile (\<lambda>c. c \<noteq> CHR '':'') line))
            in if content_part \<noteq> [] then
                 (let content_lines = wrap words_per_line (split_ws content_part)
                  in if content_lines \<noteq> []
                     then (header_part @ '': '' @ hd content_lines) # tl content_lines
                     else [line])
               else [line])
         else [line])
      else
        (let ws = split_ws line
         in if int (length ws) > words_per_line then wrap words_per_line ws else [line]))"

definition format_text_with_line_breaks :: "string \<Rightarrow> int \<Rightarrow> string" where
  "format_text_with_line_breaks text words_per_line =
     join [LF] (concat (map (format_line words_per_line) (split_on LF text)))"

section \<open>Auxiliary definitions for the properties\<close>

text \<open>
  \<open>name_starts b s\<close> counts the places of \<open>s\<close> where \<open>Name:\<close> begins directly after a
  line break (a line feed or a carriage return), the start of \<open>s\<close> counting as such a
  place when \<open>b\<close> holds.
\<close>

fun name_starts :: "bool \<Rightarrow> string \<Rightarrow> nat" where
  "name_starts b [] = 0"
| "name_starts b (c # cs) =
     (if b \<and> prefix ''Name:'' (c # cs) then 1 else 0) + name_starts (c = LF \<or> c = CR) cs"

text \<open>A candidate is the timestamp, the name, the URL and the reason of one call.\<close>

type_synonym candidate = "string \<times> string \<times> string \<times> string"

text \<open>
  A run of calls of the log writer, one after the other on the same file: the file text
  at the end and the count each call reported.
\<close>

fun save_all :: "candidate list \<Rightarrow> string \<Rightarrow> string \<times> nat list" where
  "save_all [] file = (file, [])"
| "save_all ((t, n, u, r) # cs) file =
     (case save_candidate_to_file t n u r file of
        (file', k) \<Rightarrow> (case save_all cs file' of (file'', ks) \<Rightarrow> (file'', k # ks)))"

fun inner_name_lines :: "candidate \<Rightarrow> nat" where
  "inner_name_lines (t, n, u, r) =
     name_starts False t + name_starts False n + name_starts False u + name_starts False r"

text \<open>No line break of the field is directly followed by \<open>Name:\<close>.\<close>

definition no_name_break :: "string \<Rightarrow> bool" where
  "no_name_break f = (\<not> sublist (LF # ''Name:'') f \<and> \<not> sublist (CR # ''Name:'') f)"

text \<open>
  The record format in the words of the specification: a separator line of 60 characters,
  the Date, Name, URL and Reason lines, a separator line, one blank line, and nothing
  before or after.
\<close>

definition spec_record_format :: "string \<Rightarrow> string \<Rightarrow> string \<Rightarrow> string \<Rightarrow> string" where
  "spec_record_format timestamp name url reason =
     separator @ [LF] @
     ''Date: '' @ timestamp @ [LF] @
     ''Name: '' @ name @ [LF] @
     ''URL: '' @ url @ [LF] @
     ''Reason: '' @ reason @ [LF] @
     separator @ [LF] @
     [LF]"

text \<open>
  At position \<open>i\<close> of the text stand the label \<open>EXPERIENCE:\<close> in any letter case, white
  space or none, and the token \<open>v\<close>, which is \<open>YES\<close> or \<open>NO\<close> in any letter case.
\<close>

definition experience_at :: "string \<Rightarrow> nat \<Rightarrow> string \<Rightarrow> bool" where
  "experience_at text i v =
     (i \<le> length text \<and>
      (\<exists>lab ws post. drop i text = lab @ ws @ v @ post \<and> lower lab = ''experience:''
         \<and> (\<forall>c \<in> set ws. isspace c) \<and> (lower v = ''yes'' \<or> lower v = ''no'')))"

text \<open>
  A synthetic oracle response with one line per field, in the order of the protocol and
  in reverse order.
\<close>

definition forward_response :: "string \<Rightarrow> string \<Rightarrow> string \<Rightarrow> string" where
  "forward_response n e s =
     ''NAME: '' @ n @ [LF] @ ''EXPERIENCE: '' @ e @ [LF] @ ''SUMMARY: '' @ s"

definition reverse_response :: "string \<Rightarrow> string \<Rightarrow> string \<Rightarrow> string" where
  "reverse_response n e s =
     ''SUMMARY: '' @ s @ [LF] @ ''EXPERIENCE: '' @ e @ [LF] @ ''NAME: '' @ n"

text \<open>A word as \<open>split\<close> returns it: not empty and free of white space.\<close>

definition is_word :: "string \<Rightarrow> bool" where
  "is_word w = (w \<noteq> [] \<and> (\<forall>c \<in> set w. \<not> isspace c))"

text \<open>
  The line is a header line or a separator line, or it has no more words than the
  threshold.
\<close>

definition within_threshold :: "int \<Rightarrow> string \<Rightarrow> bool" where
  "within_threshold words_per_line line =
     (is_header line \<or> is_separator line \<or> int (length (split_ws line)) \<le> words_per_line)"

section \<open>Properties of the session loop\<close>

text \<open>
  C1 (the code at the failing input). The wait in \<open>get_page_text\<close> raises
  \<open>TimeoutException\<close>, and \<open>main\<close> has no handler for it: the first pass of the loop
  ends the session with the exception uncaught, whatever the later profiles are. The
  branch that skips a profile is reached only when the extracted text is empty.
\<close>

theorem extraction_timeout_ends_session:
  "main model debug (Inr [model]) (p\<lparr>page := Inl TimeoutException\<rparr> # ps) file =
     (Uncaught TimeoutException,
      \<lparr>profile_count = 1, log_file = file, reported = [], prompts = 1\<rparr>)"
  by (simp add: main_def iteration_def get_page_text_def)

text \<open>
  C6. One pass of the loop, started in any state, in terms of what the outside world
  answers. When the pass reaches a verdict (the page text was extracted and is not
  empty, the oracle answered) and the flag is true, the candidate's entry is appended to
  the log and the count the writer reports is recorded, and then the pass advances (in
  debug mode after the operator's \<open>y\<close>, any other answer ends the loop). When the flag
  is not true the pass advances in the same way with the log and the reported counts
  untouched. A pass without a verdict (the extraction timed out, the text was empty, or
  the oracle failed) leaves them untouched as well. So the log grows, and the writer is
  called, in a pass if and only if that pass reached a verdict whose flag is true.
\<close>

theorem record_appended_iff_flag:
  "(page p = Inr text \<and> text \<noteq> [] \<and> generate p = Inr analysis
      \<and> has_experience analysis = Some True \<longrightarrow>
        iteration debug p s =
          (let s' = s\<lparr>profile_count := profile_count s + 1,
                      log_file := log_file s @
                        entry (now p) (person_name analysis) (current_url p) (summary analysis),
                      reported := reported s @
                        [candidate_count (log_file s @
                           entry (now p) (person_name analysis) (current_url p) (summary analysis))]\<rparr>
           in if debug \<and> lower (answer p) \<noteq> ''y'' then (Break, s')
              else (case skip_wait p of None \<Rightarrow> (Continue, s') | Some e \<Rightarrow> (Raise e, s'))))
   \<and> (page p = Inr text \<and> text \<noteq> [] \<and> generate p = Inr analysis
      \<and> has_experience analysis \<noteq> Some True \<longrightarrow>
        iteration debug p s =
          (let s' = s\<lparr>profile_count := profile_count s + 1\<rparr>
           in if debug \<and> lower (answer p) \<noteq> ''y'' then (Break, s')
              else (case skip_wait p of None \<Rightarrow> (Continue, s') | Some e \<Rightarrow> (Raise e, s'))))
   \<and> (page p = Inl e \<longrightarrow>
        iteration debug p s = (Raise e, s\<lparr>profile_count := profile_count s + 1\<rparr>))
   \<and> (page p = Inr [] \<longrightarrow>
        iteration debug p s =
          (let s' = s\<lparr>profile_count := profile_count s + 1\<rparr>
           in case skip_wait p of None \<Rightarrow> (Continue, s') | Some e \<Rightarrow> (Raise e, s')))
   \<and> (page p = Inr text \<and> text \<noteq> [] \<and> generate p = Inl e \<longrightarrow>
        iteration debug p s = (Raise e, s\<lparr>profile_count := profile_count s + 1\<rparr>))
   \<and> (log_file (snd (iteration debug p s)) \<noteq> log_file s \<longleftrightarrow>
        (\<exists>t a. page p = Inr t \<and> t \<noteq> [] \<and> generate p = Inr a \<and> has_experience a = Some True))
   \<and> (length (reported (snd (iteration debug p s))) = length (reported s) + 1 \<longleftrightarrow>
        (\<exists>t a. page p = Inr t \<and> t \<noteq> [] \<and> generate p = Inr a \<and> has_experience a = Some True))
   \<and> (reported (snd (iteration debug p s)) = reported s \<longleftrightarrow>
        \<not> (\<exists>t a. page p = Inr t \<and> t \<noteq> [] \<and> generate p = Inr a \<and> has_experience a = Some True))"
proof -
  let ?s1 = "s\<lparr>profile_count := profile_count s + 1\<rparr>"
  have tr: "truthy f = (f = Some True)" for f
    by (cases f) auto
  have adv: "advance p st = (case skip_wait p of None \<Rightarrow> (Continue, st) | Some e \<Rightarrow> (Raise e, st))" for st
    by (simp add: advance_def click_skip_button_def split: option.splits)
  have dbg: "(if lower (answer p) = ''q'' then (Break, st)
              else if lower (answer p) \<noteq> ''y'' then (Break, st) else advance p st)
           = (if lower (answer p) \<noteq> ''y'' then (Break, st) else advance p st)" for st
    by auto
  have yes: "iteration debug p s =
          (let s' = s\<lparr>profile_count := profile_count s + 1,
                      log_file := log_file s @
                        entry (now p) (person_name an) (current_url p) (summary an),
                      reported := reported s @
                        [candidate_count (log_file s @
                           entry (now p) (person_name an) (current_url p) (summary an))]\<rparr>
           in if debug \<and> lower (answer p) \<noteq> ''y'' then (Break, s')
              else (case skip_wait p of None \<Rightarrow> (Continue, s') | Some e \<Rightarrow> (Raise e, s')))"
    if "page p = Inr tx" "tx \<noteq> []" "generate p = Inr an" "has_experience an = Some True"
    for tx an
    using that
    by (simp add: iteration_def get_page_text_def analyze_text_for_interests_def decide_def
        parse_response_def save_candidate_to_file_def get_profile_url_def Let_def dbg adv)
  have no: "iteration debug p s =
          (let s' = s\<lparr>profile_count := profile_count s + 1\<rparr>
           in if debug \<and> lower (answer p) \<noteq> ''y'' then (Break, s')
              else (case skip_wait p of None \<Rightarrow> (Continue, s') | Some e \<Rightarrow> (Raise e, s')))"
    if "page p = Inr tx" "tx \<noteq> []" "generate p = Inr an" "has_experience an \<noteq> Some True"
    for tx an
    using that
    by (simp add: iteration_def get_page_text_def analyze_text_for_interests_def decide_def
        parse_response_def tr Let_def dbg adv)
  have timeout: "iteration debug p s = (Raise e, ?s1)" if "page p = Inl e" for e
    using that by (simp add: iteration_def get_page_text_def Let_def)
  have empty: "iteration debug p s =
          (let s' = s\<lparr>profile_count := profile_count s + 1\<rparr>
           in case skip_wait p of None \<Rightarrow> (Continue, s') | Some e \<Rightarrow> (Raise e, s'))"
    if "page p = Inr []"
    using that by (simp add: iteration_def get_page_text_def Let_def adv)
  have gen_err: "iteration debug p s = (Raise e, ?s1)"
    if "page p = Inr tx" "tx \<noteq> []" "generate p = Inl e" for tx e
    using that by (simp add: iteration_def get_page_text_def analyze_text_for_interests_def Let_def)
  let ?V = "\<exists>t a. page p = Inr t \<and> t \<noteq> [] \<and> generate p = Inr a \<and> has_experience a = Some True"
  have ne: "entry t n u r \<noteq> []" for t n u r by (simp add: entry_def)
  have with_v: "log_file (snd (iteration debug p s)) \<noteq> log_file s
      \<and> length (reported (snd (iteration debug p s))) = length (reported s) + 1" if ?V
  proof -
    from that obtain t a where v: "page p = Inr t" "t \<noteq> []" "generate p = Inr a"
      "has_experience a = Some True" by blast
    show ?thesis
      by (simp add: yes [OF v] Let_def ne split: option.splits)
  qed
  have without_v: "log_file (snd (iteration debug p s)) = log_file s
      \<and> reported (snd (iteration debug p s)) = reported s" if "\<not> ?V"
  proof (cases "page p")
    case (Inl e)
    then show ?thesis by (simp add: timeout)
  next
    case (Inr t)
    show ?thesis
    proof (cases "t = []")
      case True
      with Inr show ?thesis by (simp add: empty Let_def split: option.splits)
    next
      case False
      show ?thesis
      proof (cases "generate p")
        case (Inl e)
        with Inr False show ?thesis by (simp add: gen_err)
      next
        case a: (Inr a)
        with Inr False that have "has_experience a \<noteq> Some True" by blast
        from no [OF Inr False a this] show ?thesis
          by (simp add: Let_def split: option.splits)
      qed
    qed
  qed
  have i1: "log_file (snd (iteration debug p s)) \<noteq> log_file s \<longleftrightarrow> ?V"
    using with_v without_v by blast
  have i2: "length (reported (snd (iteration debug p s))) = length (reported s) + 1 \<longleftrightarrow> ?V"
    using with_v without_v by (cases ?V) auto
  have i3: "reported (snd (iteration debug p s)) = reported s \<longleftrightarrow> \<not> ?V"
    using with_v without_v by (cases ?V) auto
  from yes no timeout empty gen_err i1 i2 i3 show ?thesis by blast
qed

theorem record_appended_iff_flag_witness:
  "iteration False
       \<lparr>page = Inr ''built a surgical robot for my thesis'',
        generate = Inr (''NAME: Jane Doe'' @ LF # ''EXPERIENCE: YES'' @ LF # ''SUMMARY: surgical robot''),
        current_url = ''u'', now = ''t'', answer = [], skip_wait = None\<rparr>
       \<lparr>profile_count = 0, log_file = ''old'', reported = [], prompts = 1\<rparr>
     = (Continue,
        \<lparr>profile_count = 1,
         log_file = ''old'' @ entry ''t''
           (person_name (''NAME: Jane Doe'' @ LF # ''EXPERIENCE: YES'' @ LF # ''SUMMARY: surgical robot''))
           ''u''
           (summary (''NAME: Jane Doe'' @ LF # ''EXPERIENCE: YES'' @ LF # ''SUMMARY: surgical robot'')),
         reported = [candidate_count (''old'' @ entry ''t''
           (person_name (''NAME: Jane Doe'' @ LF # ''EXPERIENCE: YES'' @ LF # ''SUMMARY: surgical robot''))
           ''u''
           (summary (''NAME: Jane Doe'' @ LF # ''EXPERIENCE: YES'' @ LF # ''SUMMARY: surgical robot'')))],
         prompts = 1\<rparr>)
   \<and> iteration False
       \<lparr>page = Inr ''interested in wellness'', generate = Inr ''EXPERIENCE: NO'',
        current_url = ''u'', now = ''t'', answer = [], skip_wait = None\<rparr>
       \<lparr>profile_count = 0, log_file = ''old'', reported = [], prompts = 1\<rparr>
     = (Continue, \<lparr>profile_count = 1, log_file = ''old'', reported = [], prompts = 1\<rparr>)
   \<and> iteration False
       \<lparr>page = Inr [], generate = Inr ''EXPERIENCE: YES'',
        current_url = ''u'', now = ''t'', answer = [], skip_wait = None\<rparr>
       \<lparr>profile_count = 0, log_file = ''old'', reported = [], prompts = 1\<rparr>
     = (Continue, \<lparr>profile_count = 1, log_file = ''old'', reported = [], prompts = 1\<rparr>)"
proof -
  have y: "has_experience (''NAME: Jane Doe'' @ LF # ''EXPERIENCE: YES'' @ LF # ''SUMMARY: surgical robot'')
      = Some True"
    by code_simp
  have n: "has_experience ''EXPERIENCE: NO'' \<noteq> Some True"
    by code_simp
  have a: "iteration False
       \<lparr>page = Inr ''built a surgical robot for my thesis'',
        generate = Inr (''NAME: Jane Doe'' @ LF # ''EXPERIENCE: YES'' @ LF # ''SUMMARY: surgical robot''),
        current_url = ''u'', now = ''t'', answer = [], skip_wait = None\<rparr>
       \<lparr>profile_count = 0, log_file = ''old'', reported = [], prompts = 1\<rparr>
     = (Continue,
        \<lparr>profile_count = 1,
         log_file = ''old'' @ entry ''t''
           (person_name (''NAME: Jane Doe'' @ LF # ''EXPERIENCE: YES'' @ LF # ''SUMMARY: surgical robot''))
           ''u''
           (summary (''NAME: Jane Doe'' @ LF # ''EXPERIENCE: YES'' @ LF # ''SUMMARY: surgical robot'')),
         reported = [candidate_count (''old'' @ entry ''t''
           (person_name (''NAME: Jane Doe'' @ LF # ''EXPERIENCE: YES'' @ LF # ''SUMMARY: surgical robot''))
           ''u''
           (summary (''NAME: Jane Doe'' @ LF # ''EXPERIENCE: YES'' @ LF # ''SUMMARY: surgical robot'')))],
         prompts = 1\<rparr>)"
    using y record_appended_iff_flag [of
        "\<lparr>page = Inr ''built a surgical robot for my thesis'',
          generate = Inr (''NAME: Jane Doe'' @ LF # ''EXPERIENCE: YES'' @ LF # ''SUMMARY: surgical robot''),
          current_url = ''u'', now = ''t'', answer = [], skip_wait = None\<rparr>"
        "''built a surgical robot for my thesis''"
        "''NAME: Jane Doe'' @ LF # ''EXPERIENCE: YES'' @ LF # ''SUMMARY: surgical robot''"
        False "\<lparr>profile_count = 0, log_file = ''old'', reported = [], prompts = 1\<rparr>"]
    by (simp add: Let_def)
  have b: "iteration False
       \<lparr>page = Inr ''interested in wellness'', generate = Inr ''EXPERIENCE: NO'',
        current_url = ''u'', now = ''t'', answer = [], skip_wait = None\<rparr>
       \<lparr>profile_count = 0, log_file = ''old'', reported = [], prompts = 1\<rparr>
     = (Continue, \<lparr>profile_count = 1, log_file = ''old'', reported = [], prompts = 1\<rparr>)"
    using n record_appended_iff_flag [of
        "\<lparr>page = Inr ''interested in wellness'', generate = Inr ''EXPERIENCE: NO'',
          current_url = ''u'', now = ''t'', answer = [], skip_wait = None\<rparr>"
        "''interested in wellness''" "''EXPERIENCE: NO''"
        False "\<lparr>profile_count = 0, log_file = ''old'', reported = [], prompts = 1\<rparr>"]
    by (simp add: Let_def)
  have c: "iteration False
       \<lparr>page = Inr [], generate = Inr ''EXPERIENCE: YES'',
        current_url = ''u'', now = ''t'', answer = [], skip_wait = None\<rparr>
       \<lparr>profile_count = 0, log_file = ''old'', reported = [], prompts = 1\<rparr>
     = (Continue, \<lparr>profile_count = 1, log_file = ''old'', reported = [], prompts = 1\<rparr>)"
    using record_appended_iff_flag [of
        "\<lparr>page = Inr [], generate = Inr ''EXPERIENCE: YES'',
          current_url = ''u'', now = ''t'', answer = [], skip_wait = None\<rparr>"
        "[]" "''EXPERIENCE: YES''"
        False "\<lparr>profile_count = 0, log_file = ''old'', reported = [], prompts = 1\<rparr>"]
    by (simp add: Let_def)
  from a b c show ?thesis by (intro conjI)
qed

section \<open>Properties of the response parser\<close>

text \<open>
  C5 (the code at the failing input). On the empty answer no pattern matches: the name
  and the summary are the defaults, and the flag is the left operand of \<open>and\<close>, Python's
  \<open>None\<close>, not the boolean \<open>False\<close>.
\<close>

theorem empty_response_flag_is_None:
  "parse_response [] = (None, ''Unknown'', ''No summary available'')"
  by (simp add: parse_response_def has_experience_def person_name_def summary_def
      name_pattern_def experience_pattern_def summary_pattern_def startswith_ci_def lower_def)

lemma lower_char_y: "lower_char c = CHR ''y'' \<longleftrightarrow> c = CHR ''y'' \<or> c = CHR ''Y''"
  by (auto simp: lower_char_def split: if_splits)

lemma lower_char_e: "lower_char c = CHR ''e'' \<longleftrightarrow> c = CHR ''e'' \<or> c = CHR ''E''"
  by (auto simp: lower_char_def split: if_splits)

lemma lower_char_s: "lower_char c = CHR ''s'' \<longleftrightarrow> c = CHR ''s'' \<or> c = CHR ''S''"
  by (auto simp: lower_char_def split: if_splits)

lemma lower_char_n: "lower_char c = CHR ''n'' \<longleftrightarrow> c = CHR ''n'' \<or> c = CHR ''N''"
  by (auto simp: lower_char_def split: if_splits)

lemma lower_char_o: "lower_char c = CHR ''o'' \<longleftrightarrow> c = CHR ''o'' \<or> c = CHR ''O''"
  by (auto simp: lower_char_def split: if_splits)

lemma upper_char_Y: "upper_char c = CHR ''Y'' \<longleftrightarrow> c = CHR ''y'' \<or> c = CHR ''Y''"
  by (auto simp: upper_char_def split: if_splits)

lemma upper_char_E: "upper_char c = CHR ''E'' \<longleftrightarrow> c = CHR ''e'' \<or> c = CHR ''E''"
  by (auto simp: upper_char_def split: if_splits)

lemma upper_char_S: "upper_char c = CHR ''S'' \<longleftrightarrow> c = CHR ''s'' \<or> c = CHR ''S''"
  by (auto simp: upper_char_def split: if_splits)

lemma isspace_lower_char: "isspace (lower_char c) = isspace c"
  by (auto simp: lower_char_def isspace_def whitespace_def split: if_splits)

lemma upper_YES_iff: "upper g = ''YES'' \<longleftrightarrow> lower g = ''yes''"
proof -
  have "upper g = ''YES'' \<longleftrightarrow> (\<exists>a b c. g = [a, b, c] \<and> upper_char a = CHR ''Y''
      \<and> upper_char b = CHR ''E'' \<and> upper_char c = CHR ''S'')"
    by (auto simp: upper_def map_eq_Cons_conv)
  also have "\<dots> \<longleftrightarrow> (\<exists>a b c. g = [a, b, c] \<and> lower_char a = CHR ''y''
      \<and> lower_char b = CHR ''e'' \<and> lower_char c = CHR ''s'')"
    by (simp only: upper_char_Y upper_char_E upper_char_S lower_char_y lower_char_e lower_char_s)
  also have "\<dots> \<longleftrightarrow> lower g = ''yes''"
    by (auto simp: lower_def map_eq_Cons_conv)
  finally show ?thesis .
qed

lemma lower_yes_no_hd: "lower v = ''yes'' \<or> lower v = ''no'' \<Longrightarrow> \<exists>c cs. v = c # cs \<and> \<not> isspace c"
  by (auto simp: lower_def map_eq_Cons_conv lower_char_y lower_char_n isspace_def whitespace_def)

subsection \<open>backtrack and re_search\<close>

lemma backtrack_hit: "k (drop j s) = Some g \<Longrightarrow> backtrack k j s = Some g"
  by (cases j) auto

lemma backtrack_Some: "backtrack k j s = Some g \<Longrightarrow> \<exists>i \<le> j. k (drop i s) = Some g"
proof (induction j)
  case 0
  then show ?case by auto
next
  case (Suc j)
  show ?case
  proof (cases "k (drop (Suc j) s)")
    case None
    with Suc obtain i where "i \<le> j" "k (drop i s) = Some g" by auto
    then show ?thesis by (intro exI [of _ i]) auto
  next
    case (Some h)
    with Suc.prems show ?thesis by (intro exI [of _ "Suc j"]) auto
  qed
qed

lemma re_search_hit: "m s = Some g \<Longrightarrow> re_search m s = Some g"
  by (cases s) auto

lemma re_search_Cons_None: "m (c # cs) = None \<Longrightarrow> re_search m (c # cs) = re_search m cs"
  by simp

lemma re_search_Some_iff:
  "re_search m s = Some g \<longleftrightarrow>
     (\<exists>i \<le> length s. m (drop i s) = Some g \<and> (\<forall>j < i. m (drop j s) = None))"
proof (induction s)
  case Nil
  then show ?case by auto
next
  case (Cons c cs)
  show ?case
  proof (cases "m (c # cs)")
    case (Some h)
    have "(\<exists>i \<le> length (c # cs). m (drop i (c # cs)) = Some g \<and> (\<forall>j < i. m (drop j (c # cs)) = None))
        \<longleftrightarrow> h = g"
    proof
      assume "\<exists>i \<le> length (c # cs). m (drop i (c # cs)) = Some g \<and> (\<forall>j < i. m (drop j (c # cs)) = None)"
      then obtain i where i: "m (drop i (c # cs)) = Some g" "\<forall>j < i. m (drop j (c # cs)) = None"
        by auto
      have "i = 0"
      proof (rule ccontr)
        assume "i \<noteq> 0"
        then have "m (drop 0 (c # cs)) = None" using i(2) by blast
        with Some show False by simp
      qed
      with i(1) Some show "h = g" by simp
    next
      assume "h = g"
      with Some show "\<exists>i \<le> length (c # cs). m (drop i (c # cs)) = Some g \<and> (\<forall>j < i. m (drop j (c # cs)) = None)"
        by (intro exI [of _ 0]) auto
    qed
    with Some show ?thesis by simp
  next
    case None
    have "(\<exists>i \<le> length (c # cs). m (drop i (c # cs)) = Some g \<and> (\<forall>j < i. m (drop j (c # cs)) = None))
        \<longleftrightarrow> (\<exists>i \<le> length cs. m (drop i cs) = Some g \<and> (\<forall>j < i. m (drop j cs) = None))"
      (is "?L \<longleftrightarrow> ?R")
    proof
      assume ?L
      then obtain i where i: "i \<le> length (c # cs)" "m (drop i (c # cs)) = Some g"
        "\<forall>j < i. m (drop j (c # cs)) = None" by auto
      from i(2) None have "i \<noteq> 0" by (intro notI) simp
      then obtain i' where i': "i = Suc i'" by (cases i) auto
      have "\<forall>j < i'. m (drop j cs) = None"
      proof (intro allI impI)
        fix j assume "j < i'"
        then have "Suc j < i" using i' by simp
        with i(3) have "m (drop (Suc j) (c # cs)) = None" by blast
        then show "m (drop j cs) = None" by simp
      qed
      with i i' show ?R by (intro exI [of _ i']) auto
    next
      assume ?R
      then obtain i where i: "i \<le> length cs" "m (drop i cs) = Some g"
        "\<forall>j < i. m (drop j cs) = None" by auto
      have "\<forall>j < Suc i. m (drop j (c # cs)) = None"
      proof (intro allI impI)
        fix j assume j: "j < Suc i"
        show "m (drop j (c # cs)) = None"
        proof (cases j)
          case 0
          with None show ?thesis by simp
        next
          case (Suc j')
          with j i(3) show ?thesis by simp
        qed
      qed
      with i show ?L by (intro exI [of _ "Suc i"]) auto
    qed
    with None Cons.IH show ?thesis by simp
  qed
qed

subsection \<open>The EXPERIENCE pattern\<close>

lemma yes_or_no_Some:
  "yes_or_no s = Some v \<longleftrightarrow> (\<exists>post. s = v @ post \<and> (lower v = ''yes'' \<or> lower v = ''no''))"
proof
  assume a: "yes_or_no s = Some v"
  show "\<exists>post. s = v @ post \<and> (lower v = ''yes'' \<or> lower v = ''no'')"
  proof (cases "startswith_ci ''YES'' s")
    case True
    with a have v: "v = take 3 s" by (simp add: yes_or_no_def)
    from True have "prefix ''yes'' (lower s)" by (simp add: startswith_ci_def lower_def lower_char_def)
    then have "take 3 (lower s) = ''yes''" by (auto simp: prefix_def)
    then have "lower v = ''yes''" by (simp add: v lower_def take_map)
    then show ?thesis using v by (intro exI [of _ "drop 3 s"]) simp
  next
    case False
    with a have n: "startswith_ci ''NO'' s" and v: "v = take 2 s"
      by (auto simp: yes_or_no_def split: if_splits)
    from n have "prefix ''no'' (lower s)" by (simp add: startswith_ci_def lower_def lower_char_def)
    then have "take 2 (lower s) = ''no''" by (auto simp: prefix_def)
    then have "lower v = ''no''" by (simp add: v lower_def take_map)
    then show ?thesis using v by (intro exI [of _ "drop 2 s"]) simp
  qed
next
  assume "\<exists>post. s = v @ post \<and> (lower v = ''yes'' \<or> lower v = ''no'')"
  then obtain post where s: "s = v @ post" and v: "lower v = ''yes'' \<or> lower v = ''no''" by auto
  from v show "yes_or_no s = Some v"
  proof
    assume y: "lower v = ''yes''"
    then have "length (lower v) = 3" by simp
    then have l: "length v = 3" by (simp add: lower_def)
    have "startswith_ci ''YES'' s"
      using y by (simp add: startswith_ci_def s lower_def lower_char_def)
    then show ?thesis by (simp add: yes_or_no_def s l)
  next
    assume n: "lower v = ''no''"
    then have "length (lower v) = 2" by simp
    then have l: "length v = 2" by (simp add: lower_def)
    have "\<not> startswith_ci ''YES'' s"
      using n by (simp add: startswith_ci_def s lower_def lower_char_def)
    moreover have "startswith_ci ''NO'' s"
      using n by (simp add: startswith_ci_def s lower_def lower_char_def)
    ultimately show ?thesis by (simp add: yes_or_no_def s l)
  qed
qed

lemma take_takeWhile: "i \<le> length (takeWhile P xs) \<Longrightarrow> take i (takeWhile P xs) = take i xs"
proof (induction xs arbitrary: i)
  case Nil
  then show ?case by simp
next
  case (Cons x xs)
  then show ?case by (cases i) (auto split: if_splits)
qed

lemma startswith_ci_EXPERIENCE:
  "startswith_ci ''EXPERIENCE:'' s \<longleftrightarrow> lower (take 11 s) = ''experience:''"
proof -
  have "startswith_ci ''EXPERIENCE:'' s \<longleftrightarrow> prefix ''experience:'' (lower s)"
    by (simp add: startswith_ci_def lower_def lower_char_def)
  also have "\<dots> \<longleftrightarrow> take 11 (lower s) = ''experience:''"
  proof
    assume "prefix ''experience:'' (lower s)"
    then show "take 11 (lower s) = ''experience:''" by (auto simp: prefix_def)
  next
    assume "take 11 (lower s) = ''experience:''"
    then have "lower s = ''experience:'' @ drop 11 (lower s)"
      by (metis append_take_drop_id)
    then show "prefix ''experience:'' (lower s)" by (metis prefixI)
  qed
  also have "\<dots> \<longleftrightarrow> lower (take 11 s) = ''experience:''"
    by (simp add: lower_def take_map)
  finally show ?thesis .
qed

lemma experience_pattern_Some:
  "experience_pattern s = Some v \<longleftrightarrow>
     (\<exists>lab ws post. s = lab @ ws @ v @ post \<and> lower lab = ''experience:''
        \<and> (\<forall>c \<in> set ws. isspace c) \<and> (lower v = ''yes'' \<or> lower v = ''no''))"
  (is "?L \<longleftrightarrow> ?R")
proof
  assume ?L
  let ?r = "drop 11 s"
  let ?k = "length (takeWhile isspace ?r)"
  from \<open>?L\<close> have sw: "startswith_ci ''EXPERIENCE:'' s" and b: "backtrack yes_or_no ?k ?r = Some v"
    by (auto simp: experience_pattern_def ws_star_def split: if_splits)
  from backtrack_Some [OF b] obtain i where i: "i \<le> ?k" "yes_or_no (drop i ?r) = Some v" by auto
  from i(2) obtain post where p: "drop i ?r = v @ post" and v: "lower v = ''yes'' \<or> lower v = ''no''"
    by (auto simp: yes_or_no_Some)
  have "take i ?r = take i (takeWhile isspace ?r)"
    using i(1) by (simp add: take_takeWhile)
  then have "set (take i ?r) \<subseteq> set (takeWhile isspace ?r)"
    by (metis set_take_subset)
  then have ws: "\<forall>c \<in> set (take i ?r). isspace c"
    by (auto dest: set_takeWhileD)
  have "s = take 11 s @ take i ?r @ drop i ?r"
    by (simp only: append_take_drop_id)
  then have "s = take 11 s @ take i ?r @ v @ post" using p by simp
  moreover have "lower (take 11 s) = ''experience:''"
    using sw by (simp only: startswith_ci_EXPERIENCE)
  ultimately show ?R
    using ws v by (intro exI [of _ "take 11 s"] exI [of _ "take i ?r"] exI [of _ post]) simp
next
  assume ?R
  then obtain lab ws post where s: "s = lab @ ws @ v @ post" and lab: "lower lab = ''experience:''"
    and ws: "\<forall>c \<in> set ws. isspace c" and v: "lower v = ''yes'' \<or> lower v = ''no''"
    by auto
  have "length (lower lab) = 11" by (simp add: lab)
  then have l: "length lab = 11" by (simp add: lower_def)
  from lower_yes_no_hd [OF v] obtain c cs where c: "v = c # cs" "\<not> isspace c" by auto
  have sw: "startswith_ci ''EXPERIENCE:'' s"
    unfolding startswith_ci_EXPERIENCE using lab l by (simp add: s)
  have d: "drop 11 s = ws @ v @ post" using l by (simp add: s)
  have tw: "takeWhile isspace (ws @ v @ post) = ws"
    using ws c by (simp add: takeWhile_tail)
  have "yes_or_no (drop (length ws) (ws @ v @ post)) = Some v"
    using v by (auto simp: yes_or_no_Some)
  then have "backtrack yes_or_no (length ws) (ws @ v @ post) = Some v"
    by (rule backtrack_hit)
  with sw d tw show ?L
    by (simp add: experience_pattern_def ws_star_def)
qed

lemma experience_at_pattern:
  "experience_at text i v \<longleftrightarrow> i \<le> length text \<and> experience_pattern (drop i text) = Some v"
  by (simp add: experience_at_def experience_pattern_Some)

lemma re_search_experience:
  "re_search experience_pattern text = Some g \<longleftrightarrow>
     (\<exists>i. experience_at text i g \<and> (\<forall>j < i. \<forall>w. \<not> experience_at text j w))"
proof -
  have "(\<forall>j < i. experience_pattern (drop j text) = None) \<longleftrightarrow> (\<forall>j < i. \<forall>w. \<not> experience_at text j w)"
    if "i \<le> length text" for i
    using that by (auto simp: experience_at_pattern)
  then show ?thesis
    unfolding re_search_Some_iff experience_at_pattern by blast
qed

text \<open>
  C2, amended. For every response text of code points below 256: the flag is the
  boolean true exactly when the leftmost place of the text where the label \<open>EXPERIENCE:\<close> (in any letter case), white space or none, and \<open>YES\<close> or
  \<open>NO\<close> (in any letter case) stand has \<open>YES\<close>, and the boolean false exactly when that
  leftmost place has \<open>NO\<close>; what follows the token is not looked at.
\<close>

theorem flag_decided_by_leftmost_occurrence:
  "(has_experience text = Some True \<longleftrightarrow>
      (\<exists>i v. experience_at text i v \<and> lower v = ''yes'' \<and> (\<forall>j < i. \<forall>w. \<not> experience_at text j w)))
   \<and> (has_experience text = Some False \<longleftrightarrow>
      (\<exists>i v. experience_at text i v \<and> lower v = ''no'' \<and> (\<forall>j < i. \<forall>w. \<not> experience_at text j w)))"
proof -
  have yn: "lower v \<noteq> ''yes'' \<longleftrightarrow> lower v = ''no''" if "experience_at text i v" for i v
    using that by (auto simp: experience_at_def)
  have t: "has_experience text = Some b \<longleftrightarrow>
      (\<exists>g. re_search experience_pattern text = Some g \<and> b = (lower g = ''yes''))" for b
    by (auto simp: has_experience_def upper_YES_iff split: option.splits)
  show ?thesis
    unfolding t re_search_experience using yn by blast
qed

theorem flag_decided_by_leftmost_occurrence_witness:
  "\<exists>i v. experience_at ''NAME: Jane EXPERIENCE: Yes'' i v \<and> lower v = ''yes''
      \<and> (\<forall>j < i. \<forall>w. \<not> experience_at ''NAME: Jane EXPERIENCE: Yes'' j w)"
proof -
  have "has_experience ''NAME: Jane EXPERIENCE: Yes'' = Some True"
    by code_simp
  with flag_decided_by_leftmost_occurrence [of "''NAME: Jane EXPERIENCE: Yes''"]
  show ?thesis by blast
qed

text \<open>
  C2 as stated fails: a text that contains the label followed by \<open>YES\<close>, after an earlier
  \<open>EXPERIENCE: NO\<close>, has the flag false.
\<close>

theorem later_yes_is_ignored_counterexample:
  "sublist ''EXPERIENCE: YES'' (''EXPERIENCE: NO'' @ LF # ''EXPERIENCE: YES'')
   \<and> has_experience (''EXPERIENCE: NO'' @ LF # ''EXPERIENCE: YES'') = Some False"
  by code_simp

lemma re_search_None:
  "(\<And>x. suffix x s \<Longrightarrow> m x = None) \<Longrightarrow> re_search m s = None"
proof (induction s)
  case Nil
  then show ?case by simp
next
  case (Cons c cs)
  have "m (c # cs) = None" by (rule Cons.prems) simp
  moreover have "re_search m cs = None"
  proof (rule Cons.IH)
    fix x assume "suffix x cs"
    then have "suffix x (c # cs)" by (simp add: suffix_Cons)
    then show "m x = None" by (rule Cons.prems)
  qed
  ultimately show ?case by simp
qed

lemma prefix_suffix_sublist: "prefix p x \<Longrightarrow> suffix x s \<Longrightarrow> sublist p s"
  by (auto simp: prefix_def suffix_def sublist_def) 

lemma name_pattern_None: "\<not> prefix ''NAME:'' x \<Longrightarrow> name_pattern x = None"
  by (simp add: name_pattern_def)

lemma summary_pattern_None: "\<not> prefix ''SUMMARY:'' x \<Longrightarrow> summary_pattern x = None"
  by (simp add: summary_pattern_def)

lemma experience_pattern_None: "\<not> prefix ''experience:'' (lower x) \<Longrightarrow> experience_pattern x = None"
  by (simp add: experience_pattern_def startswith_ci_def lower_def lower_char_def)

lemma person_name_unbound: "\<not> sublist ''NAME:'' text \<Longrightarrow> person_name text = ''Unknown''"
proof -
  assume a: "\<not> sublist ''NAME:'' text"
  have "re_search name_pattern text = None"
  proof (rule re_search_None)
    fix x assume "suffix x text"
    with a have "\<not> prefix ''NAME:'' x" using prefix_suffix_sublist by blast
    then show "name_pattern x = None" by (rule name_pattern_None)
  qed
  then show ?thesis by (simp add: person_name_def)
qed

lemma summary_unbound: "\<not> sublist ''SUMMARY:'' text \<Longrightarrow> summary text = ''No summary available''"
proof -
  assume a: "\<not> sublist ''SUMMARY:'' text"
  have "re_search summary_pattern text = None"
  proof (rule re_search_None)
    fix x assume "suffix x text"
    with a have "\<not> prefix ''SUMMARY:'' x" using prefix_suffix_sublist by blast
    then show "summary_pattern x = None" by (rule summary_pattern_None)
  qed
  then show ?thesis by (simp add: summary_def)
qed

lemma isspace_lower: "lower x = lower y \<Longrightarrow> (\<forall>c \<in> set x. isspace c) \<Longrightarrow> (\<forall>c \<in> set y. isspace c)"
proof -
  assume e: "lower x = lower y" and a: "\<forall>c \<in> set x. isspace c"
  have "\<forall>c \<in> set (lower x). isspace c" using a by (auto simp: lower_def isspace_lower_char)
  then have "\<forall>c \<in> set (lower y). isspace c" using e by simp
  then show "\<forall>c \<in> set y. isspace c" by (auto simp: lower_def isspace_lower_char)
qed

lemma lower_append_split:
  assumes "lower b = lower (x @ y)"
  shows "\<exists>x' y'. b = x' @ y' \<and> lower x' = lower x \<and> lower y' = lower y"
proof (intro exI conjI)
  show "b = take (length x) b @ drop (length x) b" by simp
  have "lower (take (length x) b) = take (length x) (lower b)" by (simp add: lower_def take_map)
  then show "lower (take (length x) b) = lower x" using assms by (simp add: lower_def)
  have "lower (drop (length x) b) = drop (length x) (lower b)" by (simp add: lower_def drop_map)
  then show "lower (drop (length x) b) = lower y" using assms by (simp add: lower_def)
qed

lemma experience_pattern_lower:
  assumes "lower a = lower b" and "experience_pattern a = Some g"
  shows "\<exists>h. experience_pattern b = Some h \<and> lower h = lower g"
proof -
  from assms(2) obtain lab ws post where a: "a = lab @ ws @ g @ post"
    and lab: "lower lab = ''experience:''" and ws: "\<forall>c \<in> set ws. isspace c"
    and g: "lower g = ''yes'' \<or> lower g = ''no''"
    unfolding experience_pattern_Some by blast
  from assms(1) have "lower b = lower (lab @ ws @ g @ post)" by (simp add: a)
  from lower_append_split [OF this] obtain lab' r1
    where b1: "b = lab' @ r1" "lower lab' = lower lab" "lower r1 = lower (ws @ g @ post)" by blast
  from lower_append_split [OF b1(3)] obtain ws' r2
    where b2: "r1 = ws' @ r2" "lower ws' = lower ws" "lower r2 = lower (g @ post)" by blast
  from lower_append_split [OF b2(3)] obtain h post'
    where b3: "r2 = h @ post'" "lower h = lower g" by blast
  have b: "b = lab' @ ws' @ h @ post'" by (simp add: b1 b2 b3)
  note l = b1(2) b2(2) b3(2)
  have "\<forall>c \<in> set ws'. isspace c"
    using isspace_lower [of ws ws'] l(2) ws by simp
  moreover have "lower lab' = ''experience:''" using l(1) lab by simp
  moreover have "lower h = ''yes'' \<or> lower h = ''no''" using l(3) g by simp
  ultimately have "experience_pattern b = Some h"
    unfolding experience_pattern_Some using b by blast
  then show ?thesis using l(3) by auto
qed

lemma experience_pattern_lower_None:
  assumes "lower a = lower b" and "experience_pattern a = None"
  shows "experience_pattern b = None"
proof (cases "experience_pattern b")
  case None
  then show ?thesis .
next
  case (Some h)
  from experience_pattern_lower [OF assms(1) [symmetric] Some] assms(2) show ?thesis by auto
qed

lemma re_search_experience_lower:
  "lower a = lower b \<Longrightarrow>
     rel_option (\<lambda>g h. lower g = lower h)
       (re_search experience_pattern a) (re_search experience_pattern b)"
proof (induction a arbitrary: b)
  case Nil
  then have "b = []" by (simp add: lower_def)
  then show ?case by (cases "experience_pattern []") auto
next
  case (Cons c cs)
  then obtain d ds where b: "b = d # ds" and t: "lower cs = lower ds"
    by (cases b) (auto simp: lower_def)
  show ?case
  proof (cases "experience_pattern (c # cs)")
    case None
    with experience_pattern_lower_None [OF Cons.prems None] Cons.IH [OF t] show ?thesis
      by (simp add: b)
  next
    case (Some g)
    from experience_pattern_lower [OF Cons.prems Some] obtain h
      where "experience_pattern b = Some h" "lower h = lower g" by auto
    with Some show ?thesis by (simp add: b)
  qed
qed

lemma has_experience_lower: "lower a = lower b \<Longrightarrow> has_experience a = has_experience b"
  using re_search_experience_lower [of a b]
  by (auto simp: has_experience_def upper_YES_iff elim!: option.rel_cases)

text \<open>
  C3, amended. For every response text of code points below 256: the labels \<open>NAME:\<close>
  and \<open>SUMMARY:\<close> are matched as they are written, so a text without the exact label
  leaves the field at its default, whatever it holds in other letter cases. The
  \<open>EXPERIENCE:\<close> label is matched in any letter case, like its value: two texts that
  differ only in the case of ASCII letters (\<open>a\<close> to \<open>z\<close>, \<open>A\<close> to \<open>Z\<close>) have the same
  flag.
\<close>

theorem label_case_sensitivity:
  "(\<not> sublist ''NAME:'' text \<longrightarrow> person_name text = ''Unknown'')
   \<and> (\<not> sublist ''SUMMARY:'' text \<longrightarrow> summary text = ''No summary available'')
   \<and> (lower text' = lower text \<longrightarrow> has_experience text' = has_experience text)"
  using person_name_unbound summary_unbound has_experience_lower by blast

theorem label_case_sensitivity_witness:
  "person_name ''name: Bob summary: robots experience: yes'' = ''Unknown''
   \<and> summary ''name: Bob summary: robots experience: yes'' = ''No summary available''
   \<and> has_experience ''NAME: BOB SUMMARY: ROBOTS EXPERIENCE: YES''
       = has_experience ''name: Bob summary: robots experience: yes''"
proof -
  have a: "\<not> sublist ''NAME:'' ''name: Bob summary: robots experience: yes''"
    by code_simp
  have b: "\<not> sublist ''SUMMARY:'' ''name: Bob summary: robots experience: yes''"
    by code_simp
  have c: "lower ''NAME: BOB SUMMARY: ROBOTS EXPERIENCE: YES''
      = lower ''name: Bob summary: robots experience: yes''"
    by code_simp
  from label_case_sensitivity [of "''name: Bob summary: robots experience: yes''"
      "''NAME: BOB SUMMARY: ROBOTS EXPERIENCE: YES''"] a b c
  show ?thesis by blast
qed

text \<open>
  C3 as stated fails: the lower-case label \<open>experience:\<close> binds the field.
\<close>

theorem lower_case_experience_label_binds_counterexample:
  "has_experience ''experience: yes'' = Some True"
  by code_simp

lemma prefix_sep: "c \<notin> set p \<Longrightarrow> prefix p (zs @ c # ys) \<longleftrightarrow> prefix p zs"
proof (induction zs arbitrary: p)
  case Nil
  then show ?case by (cases p) auto
next
  case (Cons z zs)
  then show ?case by (cases p) auto
qed

lemma re_search_skip:
  assumes m: "\<And>x. \<not> prefix p (map f x) \<Longrightarrow> m x = None"
    and c: "f c \<notin> set p"
  shows "\<not> sublist p (map f s) \<Longrightarrow> re_search m (s @ c # rest) = re_search m (c # rest)"
proof (induction s)
  case Nil
  then show ?case by simp
next
  case (Cons x xs)
  from Cons.prems have np: "\<not> prefix p (map f (x # xs))" and ns: "\<not> sublist p (map f xs)"
    by (auto simp: sublist_Cons_right)
  have "prefix p (map f (x # xs) @ f c # map f rest) \<longleftrightarrow> prefix p (map f (x # xs))"
    using c by (rule prefix_sep)
  with np have "\<not> prefix p (map f ((x # xs) @ c # rest))" by simp
  then have "m ((x # xs) @ c # rest) = None" by (rule m)
  then show ?case using Cons.IH [OF ns] by simp
qed

lemma isspace_LF: "isspace LF"
  by (simp add: isspace_def whitespace_def LF_def)

lemma isspace_space: "isspace (CHR '' '')"
  by (simp add: isspace_def whitespace_def)

lemma lstrip_idem: "lstrip (lstrip s) = lstrip s"
  by (simp add: lstrip_def dropWhile_idem)

lemma strip_lstrip: "strip (lstrip s) = strip s"
  by (simp add: strip_def lstrip_idem)

lemma strip_space_Cons: "isspace c \<Longrightarrow> strip (c # s) = strip s"
  by (simp add: strip_def lstrip_def)

lemma strip_all_space: "\<forall>c \<in> set s. isspace c \<Longrightarrow> strip s = []"
proof -
  assume "\<forall>c \<in> set s. isspace c"
  then have "lstrip s = []" by (simp add: lstrip_def)
  then show ?thesis by (simp add: strip_def rstrip_def)
qed

lemma strip_nonblank: "strip n \<noteq> [] \<Longrightarrow> lstrip n \<noteq> [] \<and> (\<exists>c \<in> set n. \<not> isspace c)"
proof -
  assume a: "strip n \<noteq> []"
  have "lstrip n \<noteq> []"
  proof
    assume "lstrip n = []"
    then have "strip n = []" by (simp add: strip_def rstrip_def)
    with a show False by simp
  qed
  then show ?thesis by (auto simp: lstrip_def)
qed

text \<open>The value of a one-line field: white space, then the rest of the line.\<close>

lemma ws_star_dot_plus_line:
  assumes "LF \<notin> set n" and "strip n \<noteq> []" and "tail = [] \<or> (\<exists>r. tail = LF # r)"
  shows "ws_star dot_plus (CHR '' '' # n @ tail) = Some (lstrip n)"
proof -
  from strip_nonblank [OF assms(2)] obtain c where c: "c \<in> set n" "\<not> isspace c"
    and ne: "lstrip n \<noteq> []" by auto
  have tw: "takeWhile isspace (CHR '' '' # n @ tail) = CHR '' '' # takeWhile isspace n"
    using c by (simp add: isspace_space takeWhile_append1)
  have "drop (length (takeWhile isspace n)) (n @ tail) = dropWhile isspace n @ tail"
    by (simp add: dropWhile_eq_drop length_takeWhile_le)
  then have d: "drop (length (CHR '' '' # takeWhile isspace n)) (CHR '' '' # n @ tail) = lstrip n @ tail"
    by (simp add: lstrip_def)
  have nl: "LF \<notin> set (lstrip n)"
    using assms(1) set_dropWhileD unfolding lstrip_def by fastforce
  have "takeWhile (\<lambda>c. c \<noteq> LF) (lstrip n @ tail) = lstrip n"
    using nl assms(3) by (auto simp: takeWhile_tail)
  then have "dot_plus (lstrip n @ tail) = Some (lstrip n)"
    using ne by (simp add: dot_plus_def)
  then have "backtrack dot_plus (length (CHR '' '' # takeWhile isspace n)) (CHR '' '' # n @ tail)
      = Some (lstrip n)"
    using d backtrack_hit by metis
  then show ?thesis by (simp only: ws_star_def tw)
qed

lemma ws_star_yes_or_no:
  assumes "lower e = ''yes'' \<or> lower e = ''no''"
  shows "ws_star yes_or_no (CHR '' '' # e @ tail) = Some e"
proof -
  from lower_yes_no_hd [OF assms] obtain c cs where c: "e = c # cs" "\<not> isspace c" by auto
  have tw: "takeWhile isspace (CHR '' '' # e @ tail) = [CHR '' '']"
    using c by (simp add: isspace_space)
  have "yes_or_no (e @ tail) = Some e"
    using assms by (auto simp: yes_or_no_Some)
  then have "backtrack yes_or_no (length [CHR '' '']) (CHR '' '' # e @ tail) = Some e"
    by (intro backtrack_hit) simp
  then show ?thesis by (simp only: ws_star_def tw)
qed

lemma ws_star_dot_plus_all:
  assumes "x \<noteq> []"
  shows "\<exists>g. ws_star dot_plus_all x = Some g \<and> strip g = strip x"
proof (cases "dropWhile isspace x = []")
  case False
  have "drop (length (takeWhile isspace x)) x = lstrip x"
    by (simp add: dropWhile_eq_drop lstrip_def)
  then have "dot_plus_all (drop (length (takeWhile isspace x)) x) = Some (lstrip x)"
    using False by (simp add: dot_plus_all_def lstrip_def)
  then have "ws_star dot_plus_all x = Some (lstrip x)"
    unfolding ws_star_def by (rule backtrack_hit)
  then show ?thesis by (simp add: strip_lstrip)
next
  case True
  then have all: "\<forall>c \<in> set x. isspace c" by simp
  then have tw: "takeWhile isspace x = x" by simp
  from assms obtain j where j: "length x = Suc j" by (cases x) auto
  have "drop j x \<noteq> []" using j by simp
  then have h: "backtrack dot_plus_all j x = Some (drop j x)"
    by (intro backtrack_hit) (simp add: dot_plus_all_def)
  have "backtrack dot_plus_all (Suc j) x = backtrack dot_plus_all j x"
    using j by (simp add: dot_plus_all_def)
  with h have "ws_star dot_plus_all x = Some (drop j x)"
    by (simp add: ws_star_def tw j)
  moreover have "\<forall>c \<in> set (drop j x). isspace c"
    using all by (meson in_set_dropD)
  ultimately show ?thesis
    using all by (simp add: strip_all_space)
qed

lemma short_no_sublist: "length e < length p \<Longrightarrow> \<not> sublist p (map f e)"
  using sublist_length_le [of p "map f e"] by auto

lemma yes_no_length: "lower e = ''yes'' \<or> lower e = ''no'' \<Longrightarrow> length e \<le> 3"
proof -
  assume "lower e = ''yes'' \<or> lower e = ''no''"
  then have "length (lower e) \<le> 3" by auto
  then show ?thesis by (simp add: lower_def)
qed

lemma name_in_reverse:
  assumes "LF \<notin> set n" and "strip n \<noteq> []" and "lower e = ''yes'' \<or> lower e = ''no''"
    and "\<not> sublist ''NAME:'' s"
  shows "re_search name_pattern (reverse_response n e s) = Some (lstrip n)"
proof -
  let ?R2 = "''NAME: '' @ n"
  let ?R1 = "''EXPERIENCE: '' @ e @ LF # ?R2"
  have m: "\<And>x. \<not> prefix ''NAME:'' (map (\<lambda>c. c) x) \<Longrightarrow> name_pattern x = None"
    by (simp add: name_pattern_None)
  have c: "(\<lambda>c. c) LF \<notin> set ''NAME:''" by (simp add: LF_def)
  have ns: "\<not> sublist ''NAME:'' (map (\<lambda>c. c) s)" using assms(4) by simp
  have ne: "\<not> sublist ''NAME:'' (map (\<lambda>c. c) e)"
    using yes_no_length [OF assms(3)] by (intro short_no_sublist) simp
  have "re_search name_pattern (reverse_response n e s) = re_search name_pattern (s @ LF # ?R1)"
    by (simp add: reverse_response_def name_pattern_None)
  also have "\<dots> = re_search name_pattern (LF # ?R1)"
    using m c ns by (rule re_search_skip)
  also have "\<dots> = re_search name_pattern (e @ LF # ?R2)"
    by (simp add: name_pattern_None LF_def)
  also have "\<dots> = re_search name_pattern (LF # ?R2)"
    using m c ne by (rule re_search_skip)
  also have "\<dots> = re_search name_pattern ?R2"
    by (simp add: name_pattern_None LF_def)
  also have "\<dots> = Some (lstrip n)"
  proof (rule re_search_hit)
    have "name_pattern ?R2 = ws_star dot_plus (CHR '' '' # n @ [])"
      by (simp add: name_pattern_def)
    also have "\<dots> = Some (lstrip n)"
      using assms(1,2) by (rule ws_star_dot_plus_line) simp
    finally show "name_pattern ?R2 = Some (lstrip n)" .
  qed
  finally show ?thesis .
qed

lemma name_in_forward:
  assumes "LF \<notin> set n" and "strip n \<noteq> []"
  shows "re_search name_pattern (forward_response n e s) = Some (lstrip n)"
proof (rule re_search_hit)
  let ?R = "''EXPERIENCE: '' @ e @ [LF] @ ''SUMMARY: '' @ s"
  have "name_pattern (forward_response n e s) = ws_star dot_plus (CHR '' '' # n @ LF # ?R)"
    by (simp add: name_pattern_def forward_response_def)
  also have "\<dots> = Some (lstrip n)"
    using assms by (rule ws_star_dot_plus_line) simp
  finally show "name_pattern (forward_response n e s) = Some (lstrip n)" .
qed

lemma experience_hit:
  assumes "lower e = ''yes'' \<or> lower e = ''no''"
  shows "re_search experience_pattern (''EXPERIENCE: '' @ e @ tail) = Some e"
proof (rule re_search_hit)
  have "experience_pattern (''EXPERIENCE: '' @ e @ tail) = ws_star yes_or_no (CHR '' '' # e @ tail)"
    by (simp add: experience_pattern_def startswith_ci_def lower_def lower_char_def)
  also have "\<dots> = Some e" using assms by (rule ws_star_yes_or_no)
  finally show "experience_pattern (''EXPERIENCE: '' @ e @ tail) = Some e" .
qed

lemma experience_skip:
  assumes "\<not> sublist ''experience:'' (lower s)"
  shows "re_search experience_pattern (s @ LF # rest) = re_search experience_pattern rest"
proof -
  have m: "\<And>x. \<not> prefix ''experience:'' (map lower_char x) \<Longrightarrow> experience_pattern x = None"
    using experience_pattern_None by (simp add: lower_def)
  have c: "lower_char LF \<notin> set ''experience:''" by (simp add: LF_def lower_char_def)
  have ns: "\<not> sublist ''experience:'' (map lower_char s)" using assms by (simp add: lower_def)
  have "re_search experience_pattern (s @ LF # rest) = re_search experience_pattern (LF # rest)"
    using m c ns by (rule re_search_skip)
  also have "\<dots> = re_search experience_pattern rest"
    by (simp add: experience_pattern_None lower_def lower_char_def LF_def)
  finally show ?thesis .
qed

lemma experience_in_forward:
  assumes "lower e = ''yes'' \<or> lower e = ''no''" and "\<not> sublist ''experience:'' (lower n)"
  shows "re_search experience_pattern (forward_response n e s) = Some e"
proof -
  let ?R = "''EXPERIENCE: '' @ e @ (LF # ''SUMMARY: '' @ s)"
  have "re_search experience_pattern (forward_response n e s) = re_search experience_pattern (n @ LF # ?R)"
    by (simp add: forward_response_def experience_pattern_None lower_def lower_char_def)
  also have "\<dots> = re_search experience_pattern ?R"
    using assms(2) by (rule experience_skip)
  also have "\<dots> = Some e"
    using assms(1) by (rule experience_hit)
  finally show ?thesis .
qed

lemma experience_in_reverse:
  assumes "lower e = ''yes'' \<or> lower e = ''no''" and "\<not> sublist ''experience:'' (lower s)"
  shows "re_search experience_pattern (reverse_response n e s) = Some e"
proof -
  let ?R = "''EXPERIENCE: '' @ e @ (LF # ''NAME: '' @ n)"
  have "re_search experience_pattern (reverse_response n e s) = re_search experience_pattern (s @ LF # ?R)"
    by (simp add: reverse_response_def experience_pattern_None lower_def lower_char_def)
  also have "\<dots> = re_search experience_pattern ?R"
    using assms(2) by (rule experience_skip)
  also have "\<dots> = Some e"
    using assms(1) by (rule experience_hit)
  finally show ?thesis .
qed

lemma summary_in_forward:
  assumes "lower e = ''yes'' \<or> lower e = ''no''" and "\<not> sublist ''SUMMARY:'' n"
  shows "\<exists>g. re_search summary_pattern (forward_response n e s) = Some g \<and> strip g = strip s"
proof -
  let ?R2 = "''SUMMARY: '' @ s"
  let ?R1 = "''EXPERIENCE: '' @ e @ LF # ?R2"
  have m: "\<And>x. \<not> prefix ''SUMMARY:'' (map (\<lambda>c. c) x) \<Longrightarrow> summary_pattern x = None"
    by (simp add: summary_pattern_None)
  have c: "(\<lambda>c. c) LF \<notin> set ''SUMMARY:''" by (simp add: LF_def)
  have ns: "\<not> sublist ''SUMMARY:'' (map (\<lambda>c. c) n)" using assms(2) by simp
  have ne: "\<not> sublist ''SUMMARY:'' (map (\<lambda>c. c) e)"
    using yes_no_length [OF assms(1)] by (intro short_no_sublist) simp
  have "re_search summary_pattern (forward_response n e s) = re_search summary_pattern (n @ LF # ?R1)"
    by (simp add: forward_response_def summary_pattern_None)
  also have "\<dots> = re_search summary_pattern (LF # ?R1)"
    using m c ns by (rule re_search_skip)
  also have "\<dots> = re_search summary_pattern (e @ LF # ?R2)"
    by (simp add: summary_pattern_None LF_def)
  also have "\<dots> = re_search summary_pattern (LF # ?R2)"
    using m c ne by (rule re_search_skip)
  also have "\<dots> = re_search summary_pattern ?R2"
    by (simp add: summary_pattern_None LF_def)
  finally have r: "re_search summary_pattern (forward_response n e s) = re_search summary_pattern ?R2" .
  obtain g where g: "ws_star dot_plus_all (CHR '' '' # s) = Some g" "strip g = strip (CHR '' '' # s)"
    using ws_star_dot_plus_all [of "CHR '' '' # s"] by auto
  have "summary_pattern ?R2 = ws_star dot_plus_all (CHR '' '' # s)"
    by (simp add: summary_pattern_def)
  then have "re_search summary_pattern ?R2 = Some g"
    using g(1) by (intro re_search_hit) simp
  with r g(2) show ?thesis by (simp add: strip_space_Cons isspace_space)
qed

lemma summary_in_reverse:
  "\<exists>g. re_search summary_pattern (reverse_response n e s) = Some g
     \<and> strip g = strip (s @ [LF] @ ''EXPERIENCE: '' @ e @ [LF] @ ''NAME: '' @ n)"
proof -
  let ?T = "s @ [LF] @ ''EXPERIENCE: '' @ e @ [LF] @ ''NAME: '' @ n"
  obtain g where g: "ws_star dot_plus_all (CHR '' '' # ?T) = Some g" "strip g = strip (CHR '' '' # ?T)"
    using ws_star_dot_plus_all [of "CHR '' '' # ?T"] by auto
  have "summary_pattern (reverse_response n e s) = ws_star dot_plus_all (CHR '' '' # ?T)"
    by (simp add: summary_pattern_def reverse_response_def)
  then have "re_search summary_pattern (reverse_response n e s) = Some g"
    using g(1) by (intro re_search_hit) simp
  with g(2) show ?thesis by (simp add: strip_space_Cons isspace_space)
qed

text \<open>
  C4, amended. Take a response of code points below 256 with one NAME line, one
  EXPERIENCE line and one SUMMARY line: the name is one line and not blank, the value is
  \<open>YES\<close> or \<open>NO\<close> in any letter case, and neither the name nor the summary holds the
  label of another field (\<open>EXPERIENCE:\<close> in any case of its letters). In reverse
  order the parser finds the same name and the same flag as in forward order. The summary
  differs: in forward order it is the stripped summary value, in reverse order it is that
  value together with the EXPERIENCE and NAME lines that follow it, because the SUMMARY
  pattern takes everything up to the end of the text.
\<close>

theorem reverse_order_keeps_name_and_flag:
  assumes "LF \<notin> set n" and "strip n \<noteq> []"
    and "\<not> sublist ''SUMMARY:'' n" and "\<not> sublist ''experience:'' (lower n)"
    and "lower e = ''yes'' \<or> lower e = ''no''"
    and "\<not> sublist ''NAME:'' s" and "\<not> sublist ''experience:'' (lower s)"
  shows "person_name (reverse_response n e s) = person_name (forward_response n e s)
       \<and> has_experience (reverse_response n e s) = has_experience (forward_response n e s)
       \<and> person_name (forward_response n e s) = strip n
       \<and> has_experience (forward_response n e s) = Some (lower e = ''yes'')
       \<and> summary (forward_response n e s) = strip s
       \<and> summary (reverse_response n e s) =
           strip (s @ [LF] @ ''EXPERIENCE: '' @ e @ [LF] @ ''NAME: '' @ n)"
proof -
  have nf: "person_name (forward_response n e s) = strip n"
    by (simp add: person_name_def name_in_forward [OF assms(1,2)] strip_lstrip)
  have nr: "person_name (reverse_response n e s) = strip n"
    by (simp add: person_name_def name_in_reverse [OF assms(1,2,5,6)] strip_lstrip)
  have ef: "has_experience (forward_response n e s) = Some (lower e = ''yes'')"
    by (simp add: has_experience_def experience_in_forward [OF assms(5,4)] upper_YES_iff)
  have er: "has_experience (reverse_response n e s) = Some (lower e = ''yes'')"
    by (simp add: has_experience_def experience_in_reverse [OF assms(5,7)] upper_YES_iff)
  have sf: "summary (forward_response n e s) = strip s"
    using summary_in_forward [OF assms(5,3), of s] by (auto simp: summary_def)
  have sr: "summary (reverse_response n e s) =
      strip (s @ [LF] @ ''EXPERIENCE: '' @ e @ [LF] @ ''NAME: '' @ n)"
    using summary_in_reverse [of n e s] by (auto simp: summary_def)
  from nf nr ef er sf sr show ?thesis by simp
qed

theorem reverse_order_keeps_name_and_flag_witness:
  "person_name (reverse_response ''Jane Doe'' ''YES'' ''built a surgical robot'')
     = person_name (forward_response ''Jane Doe'' ''YES'' ''built a surgical robot'')
   \<and> has_experience (reverse_response ''Jane Doe'' ''YES'' ''built a surgical robot'')
     = has_experience (forward_response ''Jane Doe'' ''YES'' ''built a surgical robot'')"
proof -
  have h: "LF \<notin> set ''Jane Doe''" "strip ''Jane Doe'' \<noteq> []"
    "\<not> sublist ''SUMMARY:'' ''Jane Doe''" "\<not> sublist ''experience:'' (lower ''Jane Doe'')"
    "lower ''YES'' = ''yes'' \<or> lower ''YES'' = ''no''"
    "\<not> sublist ''NAME:'' ''built a surgical robot''"
    "\<not> sublist ''experience:'' (lower ''built a surgical robot'')"
    by code_simp+
  from reverse_order_keeps_name_and_flag [OF h] show ?thesis by blast
qed

text \<open>
  C4 as stated fails: for the name Jane Doe, the value YES and a one-line summary the
  two orders give different results.
\<close>

theorem reverse_order_changes_summary_counterexample:
  "parse_response (reverse_response ''Jane Doe'' ''YES'' ''built a surgical robot'')
     \<noteq> parse_response (forward_response ''Jane Doe'' ''YES'' ''built a surgical robot'')"
  by code_simp

section \<open>Properties of the log writer\<close>

lemma LF_not_CR: "LF \<noteq> CR" by (simp add: LF_def CR_def)

lemma prefix_universal_newlines:
  "CR \<notin> set p \<Longrightarrow> LF \<notin> set p \<Longrightarrow> prefix p (universal_newlines s) \<longleftrightarrow> prefix p s"
proof (induction s arbitrary: p rule: universal_newlines.induct)
  case 1
  then show ?case by simp
next
  case (2 c)
  then show ?case by (cases p) auto
next
  case (3 c d cs)
  then show ?case by (cases p) auto
qed

lemma universal_newlines_Nil: "universal_newlines s = [] \<longleftrightarrow> s = []"
  by (induction s rule: universal_newlines.induct) auto

lemma readlines_Nil: "readlines t = [] \<longleftrightarrow> t = []"
  by (cases t) (auto split: list.splits)

lemma prefix_hd_readlines:
  "t \<noteq> [] \<Longrightarrow> LF \<notin> set p \<Longrightarrow> prefix p (hd (readlines t)) \<longleftrightarrow> prefix p t"
proof (induction t arbitrary: p)
  case Nil
  then show ?case by simp
next
  case (Cons c cs)
  show ?case
  proof (cases p)
    case Nil
    then show ?thesis by simp
  next
    case (Cons x xs)
    with Cons.prems Cons.IH [of xs] show ?thesis
      by (cases cs) (auto split: list.splits simp: readlines_Nil)
  qed
qed

lemma name_starts_True: "name_starts True s = (if prefix ''Name:'' s then 1 else 0) + name_starts False s"
  by (cases s) auto

lemma count_split:
  "length (filter (prefix ''Name:'') (readlines t)) =
     (if prefix ''Name:'' t then 1 else 0) + length (filter (prefix ''Name:'') (tl (readlines t)))"
proof (cases "t = []")
  case True
  then show ?thesis by simp
next
  case False
  then obtain l ls where r: "readlines t = l # ls"
    by (cases "readlines t") (auto simp: readlines_Nil)
  have "prefix ''Name:'' l \<longleftrightarrow> prefix ''Name:'' t"
    using prefix_hd_readlines [OF False, of "''Name:''"] r by (simp add: LF_def)
  then show ?thesis using r by simp
qed

lemma candidate_count_universal:
  "candidate_count s = (if prefix ''Name:'' s then 1 else 0) +
     length (filter (prefix ''Name:'') (tl (readlines (universal_newlines s))))"
  unfolding candidate_count_def
  by (subst count_split) (simp add: prefix_universal_newlines LF_def CR_def)

lemma inner_lines:
  "length (filter (prefix ''Name:'') (tl (readlines (universal_newlines s)))) = name_starts False s"
proof (induction s rule: universal_newlines.induct)
  case 1
  then show ?case by simp
next
  case (2 c)
  then show ?case by simp
next
  case (3 c d cs)
  have nn: "\<not> prefix ''Name:'' (LF # xs)" for xs by (simp add: LF_def)
  show ?case
  proof (cases "c = CR")
    case True
    show ?thesis
    proof (cases "d = LF")
      case dLF: True
      have "length (filter (prefix ''Name:'') (tl (readlines (universal_newlines (c # d # cs))))) =
            candidate_count cs"
        using True dLF by (simp add: candidate_count_def)
      also have "\<dots> = name_starts True cs"
        using 3(1) [OF True dLF] by (simp add: candidate_count_universal name_starts_True)
      finally show ?thesis using True dLF nn by simp
    next
      case dn: False
      have "length (filter (prefix ''Name:'') (tl (readlines (universal_newlines (c # d # cs))))) =
            candidate_count (d # cs)"
        using True dn by (simp add: candidate_count_def)
      also have "\<dots> = name_starts True (d # cs)"
        using 3(2) [OF True dn] by (simp only: candidate_count_universal name_starts_True)
      finally show ?thesis using True dn by simp
    qed
  next
    case False
    note ih = 3(3) [OF False]
    show ?thesis
    proof (cases "c = LF")
      case True
      have "length (filter (prefix ''Name:'') (tl (readlines (universal_newlines (c # d # cs))))) =
            candidate_count (d # cs)"
        using True False by (simp add: candidate_count_def)
      also have "\<dots> = name_starts True (d # cs)"
        using ih by (simp only: candidate_count_universal name_starts_True)
      finally show ?thesis using True False by simp
    next
      case cn: False
      have ne: "readlines (universal_newlines (d # cs)) \<noteq> []"
        by (simp add: readlines_Nil universal_newlines_Nil)
      then have "tl (readlines (universal_newlines (c # d # cs))) =
                 tl (readlines (universal_newlines (d # cs)))"
        using False cn by (auto split: list.splits)
      then show ?thesis using ih False cn by simp
    qed
  qed
qed

lemma candidate_count_name_starts: "candidate_count s = name_starts True s"
  by (simp only: candidate_count_universal inner_lines name_starts_True)

lemma name_starts_snoc: "c \<notin> set ''Name:'' \<Longrightarrow> name_starts b (xs @ [c]) = name_starts b xs"
proof (induction xs arbitrary: b)
  case Nil
  then show ?case by auto
next
  case (Cons x xs)
  have "prefix ''Name:'' ((x # xs) @ c # []) \<longleftrightarrow> prefix ''Name:'' (x # xs)"
    using Cons.prems by (rule prefix_sep)
  with Cons show ?case by simp
qed

lemma name_starts_break:
  "c = LF \<or> c = CR \<Longrightarrow> name_starts b (xs @ c # ys) = name_starts b xs + name_starts True ys"
proof (induction xs arbitrary: b)
  case Nil
  then show ?case by (auto simp: LF_def CR_def)
next
  case (Cons x xs)
  have "c \<notin> set ''Name:''" using Cons.prems by (auto simp: LF_def CR_def)
  then have "prefix ''Name:'' ((x # xs) @ c # ys) \<longleftrightarrow> prefix ''Name:'' (x # xs)"
    by (rule prefix_sep)
  with Cons show ?case by simp
qed

lemma name_starts_separator: "name_starts b (replicate k (CHR ''='')) = 0"
  by (induction k arbitrary: b) (auto simp: LF_def CR_def)

lemma name_starts_entry:
  "name_starts True (entry t n u r) =
     1 + name_starts False t + name_starts False n + name_starts False u + name_starts False r"
proof -
  have e: "entry t n u r =
      [] @ LF # (separator @ LF # ((''Date: '' @ t) @ LF # ((''Name: '' @ n) @ LF #
        ((''URL: '' @ u) @ LF # ((''Reason: '' @ r) @ LF # (separator @ LF # ([] @ LF # [])))))))"
    by (simp add: entry_def)
  have d: "name_starts True (''Date: '' @ t) = name_starts False t"
    by (simp add: LF_def CR_def)
  have nm: "name_starts True (''Name: '' @ n) = 1 + name_starts False n"
    by (simp add: LF_def CR_def)
  have ur: "name_starts True (''URL: '' @ u) = name_starts False u"
    by (simp add: LF_def CR_def)
  have re: "name_starts True (''Reason: '' @ r) = name_starts False r"
    by (simp add: LF_def CR_def)
  show ?thesis
    by (subst e) (simp only: name_starts_break [OF disjI1 [OF refl]] d nm ur re
        name_starts_separator separator_def name_starts.simps add_0_right add_0 add.assoc)
qed

lemma candidate_count_append_entry:
  "candidate_count (file @ entry t n u r) =
     candidate_count file + 1 + name_starts False t + name_starts False n
       + name_starts False u + name_starts False r"
proof -
  have "entry t n u r = LF # tl (entry t n u r)" by (simp add: entry_def)
  then have "name_starts True (file @ entry t n u r) =
      name_starts True file + name_starts True (tl (entry t n u r))"
    using name_starts_break [of LF True "file" "tl (entry t n u r)"] by simp
  moreover have "name_starts True (entry t n u r) = name_starts True (tl (entry t n u r))"
    using name_starts_break [of LF True "[]" "tl (entry t n u r)"]
      \<open>entry t n u r = LF # tl (entry t n u r)\<close> by simp
  ultimately show ?thesis
    by (simp add: candidate_count_name_starts name_starts_entry)
qed

lemma save_all_Cons_fst:
  "fst (save_all ((t, n, u, r) # cs) f) = fst (save_all cs (f @ entry t n u r))"
  by (cases "save_all cs (f @ entry t n u r)") (simp add: save_candidate_to_file_def Let_def)

lemma save_all_Cons_snd:
  "snd (save_all ((t, n, u, r) # cs) f) =
     candidate_count (f @ entry t n u r) # snd (save_all cs (f @ entry t n u r))"
  by (cases "save_all cs (f @ entry t n u r)") (simp add: save_candidate_to_file_def Let_def)

lemma save_all_fst: "fst (save_all cs f) = f @ concat (map (\<lambda>(t, n, u, r). entry t n u r) cs)"
proof (induction cs arbitrary: f)
  case Nil
  then show ?case by simp
next
  case (Cons c cs)
  obtain t n u r where c: "c = (t, n, u, r)" by (cases c) auto
  show ?case by (simp only: c save_all_Cons_fst Cons.IH) simp
qed

lemma save_all_count:
  "candidate_count (fst (save_all cs f)) =
     candidate_count f + length cs + sum_list (map inner_name_lines cs)"
proof (induction cs arbitrary: f)
  case Nil
  then show ?case by simp
next
  case (Cons c cs)
  obtain t n u r where c: "c = (t, n, u, r)" by (cases c) auto
  show ?case
    by (simp only: c save_all_Cons_fst Cons.IH candidate_count_append_entry) simp
qed

lemma save_all_length: "length (snd (save_all cs f)) = length cs"
proof (induction cs arbitrary: f)
  case Nil
  then show ?case by simp
next
  case (Cons c cs)
  obtain t n u r where c: "c = (t, n, u, r)" by (cases c) auto
  show ?case by (simp only: c save_all_Cons_snd) (simp add: Cons.IH)
qed

lemma save_all_last:
  "cs \<noteq> [] \<Longrightarrow> last (snd (save_all cs f)) = candidate_count (fst (save_all cs f))"
proof (induction cs arbitrary: f)
  case Nil
  then show ?case by simp
next
  case (Cons c cs)
  obtain t n u r where c: "c = (t, n, u, r)" by (cases c) auto
  show ?case
  proof (cases "cs = []")
    case True
    then show ?thesis by (simp add: c save_candidate_to_file_def Let_def)
  next
    case False
    then have "snd (save_all cs (f @ entry t n u r)) \<noteq> []"
      using save_all_length [of cs "f @ entry t n u r"] by auto
    with Cons.IH [OF False, of "f @ entry t n u r"] show ?thesis
      by (simp only: c save_all_Cons_fst save_all_Cons_snd) simp
  qed
qed

lemma name_starts_sublist:
  "sublist (c # ''Name:'') r \<Longrightarrow> c = LF \<or> c = CR \<Longrightarrow> 0 < name_starts b r"
proof (induction r arbitrary: b)
  case Nil
  then show ?case by simp
next
  case (Cons x xs)
  from Cons.prems(1) have "prefix (c # ''Name:'') (x # xs) \<or> sublist (c # ''Name:'') xs"
    by (simp only: sublist_Cons_right)
  then show ?case
  proof
    assume "prefix (c # ''Name:'') (x # xs)"
    then have "x = c" and p: "prefix ''Name:'' xs" by auto
    then have "0 < name_starts True xs" by (cases xs) auto
    with \<open>x = c\<close> Cons.prems(2) show ?thesis by simp
  next
    assume "sublist (c # ''Name:'') xs"
    from Cons.IH [OF this Cons.prems(2)] show ?thesis by simp
  qed
qed

lemma name_starts_no_sublist:
  "\<not> sublist (LF # ''Name:'') r \<Longrightarrow> \<not> sublist (CR # ''Name:'') r \<Longrightarrow> \<not> (b \<and> prefix ''Name:'' r)
     \<Longrightarrow> name_starts b r = 0"
proof (induction r arbitrary: b)
  case Nil
  then show ?case by simp
next
  case (Cons x xs)
  from Cons.prems(1,2) have a: "\<not> sublist (LF # ''Name:'') xs" "\<not> sublist (CR # ''Name:'') xs"
    and b: "\<not> prefix (LF # ''Name:'') (x # xs)" "\<not> prefix (CR # ''Name:'') (x # xs)"
    by (auto simp only: sublist_Cons_right)
  from b have "\<not> ((x = LF \<or> x = CR) \<and> prefix ''Name:'' xs)" by auto
  from Cons.IH [OF a this] Cons.prems(3) show ?case by simp
qed

text \<open>
  C10. After a run of calls on an empty log the last reported count is the number of
  records plus the number of line breaks inside the fields that are directly followed by
  \<open>Name:\<close>; so when the reason of some record has a line that starts with \<open>Name:\<close>
  the reported count is greater than the number of records appended.
\<close>

theorem count_exceeds_records:
  assumes "(t, n, u, r) \<in> set cs" and "sublist (LF # ''Name:'') r"
  shows "last (snd (save_all cs [])) = length cs + sum_list (map inner_name_lines cs)
         \<and> length cs < last (snd (save_all cs []))"
proof -
  from assms(1) have ne: "cs \<noteq> []" by auto
  have c0: "candidate_count [] = 0" by (simp add: candidate_count_def)
  have eq: "last (snd (save_all cs [])) = length cs + sum_list (map inner_name_lines cs)"
    by (simp add: save_all_last [OF ne] save_all_count c0)
  have "0 < name_starts False r"
    using name_starts_sublist [OF assms(2)] by simp
  then have "0 < inner_name_lines (t, n, u, r)" by simp
  moreover have "inner_name_lines (t, n, u, r) \<le> sum_list (map inner_name_lines cs)"
    using assms(1) by (auto simp del: inner_name_lines.simps intro!: member_le_sum_list)
  ultimately have "0 < sum_list (map inner_name_lines cs)" by linarith
  with eq show ?thesis by simp
qed

theorem count_exceeds_records_witness:
  "length [(''2026-11-04 09:00:00'', ''Jane Doe'', ''https://x/1'', ''robots'' @ LF # ''Name: y'')]
     < last (snd (save_all
         [(''2026-11-04 09:00:00'', ''Jane Doe'', ''https://x/1'', ''robots'' @ LF # ''Name: y'')] []))"
proof -
  have s: "sublist (LF # ''Name:'') (''robots'' @ LF # ''Name: y'')"
    by (simp add: sublist_Cons_right)
  have m: "(''2026-11-04 09:00:00'', ''Jane Doe'', ''https://x/1'', ''robots'' @ LF # ''Name: y'')
      \<in> set [(''2026-11-04 09:00:00'', ''Jane Doe'', ''https://x/1'', ''robots'' @ LF # ''Name: y'')]"
    by simp
  from count_exceeds_records [OF m s] show ?thesis by (rule conjunct2)
qed

text \<open>
  C7 as stated fails: two calls with the distinct names Ann and Bob, the second reason
  holding a line that starts with \<open>Name:\<close>, report 3 on the second call.
\<close>

theorem count_with_name_line_counterexample:
  "distinct (map (fst \<circ> snd)
       [(''2026-11-04 09:00:00'', ''Ann'', ''https://x/1'', ''surgical robots''),
        (''2026-11-04 09:05:00'', ''Bob'', ''https://x/2'', ''Worked with'' @ LF # ''Name: Ann'')])
   \<and> last (snd (save_all
       [(''2026-11-04 09:00:00'', ''Ann'', ''https://x/1'', ''surgical robots''),
        (''2026-11-04 09:05:00'', ''Bob'', ''https://x/2'', ''Worked with'' @ LF # ''Name: Ann'')] [])) = 3"
proof -
  have c0: "candidate_count [] = 0" by (simp add: candidate_count_def)
  have ne: "[(''2026-11-04 09:00:00'', ''Ann'', ''https://x/1'', ''surgical robots''),
        (''2026-11-04 09:05:00'', ''Bob'', ''https://x/2'', ''Worked with'' @ LF # ''Name: Ann'')] \<noteq> []"
    by simp
  show ?thesis
    by (simp only: save_all_last [OF ne] save_all_count c0) (simp add: LF_def CR_def)
qed

text \<open>
  C7, amended. For every non-empty run of calls on an empty log in which no field has a
  line break directly followed by \<open>Name:\<close>, the last call reports the number of calls,
  and the file after the last call is the file after the calls before it followed by the
  last entry: the earlier records are untouched.
\<close>

theorem count_is_number_of_records:
  assumes "cs \<noteq> []"
    and "\<forall>(t, n, u, r) \<in> set cs. no_name_break t \<and> no_name_break n \<and> no_name_break u \<and> no_name_break r"
  shows "last (snd (save_all cs [])) = length cs
         \<and> fst (save_all cs []) = fst (save_all (butlast cs) []) @ (case last cs of (t, n, u, r) \<Rightarrow> entry t n u r)"
proof -
  have z: "name_starts False f = 0" if "no_name_break f" for f
    using that name_starts_no_sublist [of f False] by (simp add: no_name_break_def)
  have "inner_name_lines c = 0" if "c \<in> set cs" for c
  proof -
    obtain t n u r where c: "c = (t, n, u, r)" by (cases c) auto
    from assms(2) that c
    have "no_name_break t \<and> no_name_break n \<and> no_name_break u \<and> no_name_break r"
      by blast
    then show ?thesis by (simp add: c z)
  qed
  then have "sum_list (map inner_name_lines cs) = 0" by simp
  moreover have "candidate_count [] = 0" by (simp add: candidate_count_def)
  ultimately have a: "last (snd (save_all cs [])) = length cs"
    by (simp add: save_all_last [OF assms(1)] save_all_count)
  have "fst (save_all (butlast cs @ [last cs]) []) =
      fst (save_all (butlast cs) []) @ (case last cs of (t, n, u, r) \<Rightarrow> entry t n u r)"
    by (simp add: save_all_fst)
  then have b: "fst (save_all cs []) =
      fst (save_all (butlast cs) []) @ (case last cs of (t, n, u, r) \<Rightarrow> entry t n u r)"
    using assms(1) by simp
  from a b show ?thesis by simp
qed

theorem count_is_number_of_records_witness:
  "last (snd (save_all
       [(''2026-11-04 09:00:00'', ''Ann'', ''https://x/1'', ''surgical robots''),
        (''2026-11-04 09:05:00'', ''Bob'', ''https://x/2'', ''biotech'' @ LF # ''startup'')] []))
   = length
       [(''2026-11-04 09:00:00'', ''Ann'', ''https://x/1'', ''surgical robots''),
        (''2026-11-04 09:05:00'', ''Bob'', ''https://x/2'', ''biotech'' @ LF # ''startup'')]"
proof -
  have h: "\<forall>(t, n, u, r) \<in> set
       [(''2026-11-04 09:00:00'', ''Ann'', ''https://x/1'', ''surgical robots''),
        (''2026-11-04 09:05:00'', ''Bob'', ''https://x/2'', ''biotech'' @ LF # ''startup'')].
       no_name_break t \<and> no_name_break n \<and> no_name_break u \<and> no_name_break r"
    by (simp add: no_name_break_def sublist_Cons_right LF_def CR_def)
  have ne: "[(''2026-11-04 09:00:00'', ''Ann'', ''https://x/1'', ''surgical robots''),
        (''2026-11-04 09:05:00'', ''Bob'', ''https://x/2'', ''biotech'' @ LF # ''startup'')] \<noteq> []"
    by simp
  from count_is_number_of_records [OF ne h] show ?thesis by (rule conjunct1)
qed

text \<open>
  C8 as stated fails: the text appended for a record is not the format of the
  specification, because it begins with an additional line feed.
\<close>

theorem record_has_leading_blank_line_counterexample:
  "fst (save_candidate_to_file ''2026-11-04 09:00:00'' ''Jane Doe'' ''https://x/1'' ''robots'' [])
     \<noteq> spec_record_format ''2026-11-04 09:00:00'' ''Jane Doe'' ''https://x/1'' ''robots''"
  by (simp add: save_candidate_to_file_def entry_def spec_record_format_def separator_def LF_def Let_def)

text \<open>
  C8, amended. Every call appends one empty line followed by exactly the format of the
  specification: the separator line, the Date, Name, URL and Reason lines, the separator
  line and one blank line; the separator is 60 characters \<open>=\<close>.
\<close>

theorem record_format:
  "fst (save_candidate_to_file t n u r f) = f @ [LF] @ spec_record_format t n u r
   \<and> length separator = 60 \<and> set separator = {CHR ''=''}"
  by (simp add: save_candidate_to_file_def entry_def spec_record_format_def separator_def Let_def)

section \<open>Properties of the formatter\<close>

subsection \<open>strip\<close>

lemma rstrip_snoc: "\<not> isspace c \<Longrightarrow> rstrip (s @ [c]) = s @ [c]"
  by (simp add: rstrip_def)

lemma strip_keeps_hd: "\<not> isspace c \<Longrightarrow> \<exists>t. strip (c # s) = c # t"
proof -
  assume c: "\<not> isspace c"
  have "dropWhile isspace (rev s @ [c]) = dropWhile isspace (rev s) @ [c]"
    using c by (simp add: dropWhile_append3)
  then have "rstrip (c # s) = c # rev (dropWhile isspace (rev s))"
    by (simp add: rstrip_def)
  then show ?thesis using c by (simp add: strip_def lstrip_def)
qed

lemma strip_id: "s \<noteq> [] \<Longrightarrow> \<not> isspace (hd s) \<Longrightarrow> \<not> isspace (last s) \<Longrightarrow> strip s = s"
proof -
  assume s: "s \<noteq> []" and h: "\<not> isspace (hd s)" and l: "\<not> isspace (last s)"
  from s h have "lstrip s = s" by (cases s) (auto simp: lstrip_def)
  moreover from s l have "rstrip s = s"
    using rstrip_snoc [of "last s" "butlast s"] by simp
  ultimately show ?thesis by (simp add: strip_def)
qed

lemma strip_idem: "strip (strip s) = strip s"
proof (cases "strip s = []")
  case True
  have "strip [] = []" by (simp add: strip_def lstrip_def rstrip_def)
  with True show ?thesis by simp
next
  case False
  let ?l = "lstrip s"
  from False have ne: "?l \<noteq> []" using strip_nonblank by blast
  then have h: "\<not> isspace (hd ?l)"
    unfolding lstrip_def by (rule hd_dropWhile)
  let ?r = "dropWhile isspace (rev ?l)"
  have r: "strip s = rev ?r" by (simp add: strip_def rstrip_def)
  from False r have rne: "?r \<noteq> []" by auto
  then have "\<not> isspace (hd ?r)" by (rule hd_dropWhile)
  then have la: "\<not> isspace (last (strip s))" using rne by (simp add: r last_rev)
  obtain c cs where l: "?l = c # cs" using ne by (cases ?l) auto
  with h have "\<not> isspace c" by simp
  from strip_keeps_hd [OF this, of cs] obtain t where "strip (c # cs) = c # t" by auto
  moreover have "strip (c # cs) = strip s" using l strip_lstrip [of s] by simp
  ultimately have "hd (strip s) = c" by simp
  with \<open>\<not> isspace c\<close> have "\<not> isspace (hd (strip s))" by simp
  from False this la show ?thesis by (rule strip_id)
qed

subsection \<open>split\<close>

lemma split_acc_word:
  "\<forall>c \<in> set w. \<not> isspace c \<Longrightarrow> split_acc cur (w @ rest) = split_acc (cur @ w) rest"
  by (induction w arbitrary: cur) auto

lemma split_acc_words:
  "\<forall>c \<in> set cur. \<not> isspace c \<Longrightarrow> \<forall>w \<in> set (split_acc cur s). is_word w"
proof (induction s arbitrary: cur)
  case Nil
  then show ?case by (simp add: is_word_def)
next
  case (Cons c cs)
  have e: "\<forall>w \<in> set (split_acc [] cs). is_word w" by (rule Cons.IH) simp
  show ?case
  proof (cases "isspace c")
    case True
    show ?thesis
    proof (cases "cur = []")
      case True
      with \<open>isspace c\<close> e show ?thesis by simp
    next
      case False
      with Cons.prems have "is_word cur" by (simp add: is_word_def)
      with \<open>isspace c\<close> False e show ?thesis by simp
    qed
  next
    case False
    with Cons.prems have "\<forall>x \<in> set (cur @ [c]). \<not> isspace x" by auto
    from Cons.IH [OF this] False show ?thesis by simp
  qed
qed

lemma split_ws_words: "\<forall>w \<in> set (split_ws s). is_word w"
  using split_acc_words [of "[]" s] by (simp add: split_ws_def)

lemma split_acc_trailing:
  "\<forall>c \<in> set t. isspace c \<Longrightarrow> split_acc cur (s @ t) = split_acc cur s"
proof (induction s arbitrary: cur)
  case Nil
  then show ?case by (induction t arbitrary: cur) auto
next
  case (Cons c cs)
  then show ?case by simp
qed

lemma split_ws_lstrip: "split_ws (lstrip s) = split_ws s"
proof (induction s)
  case Nil
  then show ?case by (simp add: lstrip_def)
next
  case (Cons c cs)
  show ?case
  proof (cases "isspace c")
    case True
    with Cons show ?thesis by (simp add: split_ws_def lstrip_def)
  next
    case False
    then show ?thesis by (simp add: lstrip_def)
  qed
qed

lemma split_ws_rstrip: "split_ws (rstrip s) = split_ws s"
proof -
  have "rev s = takeWhile isspace (rev s) @ dropWhile isspace (rev s)" by simp
  then have "rev (rev s) = rev (takeWhile isspace (rev s) @ dropWhile isspace (rev s))"
    by simp
  then have "s = rev (dropWhile isspace (rev s)) @ rev (takeWhile isspace (rev s))"
    by (simp only: rev_append rev_rev_ident)
  then have s: "s = rstrip s @ rev (takeWhile isspace (rev s))" by (simp add: rstrip_def)
  have "\<forall>c \<in> set (rev (takeWhile isspace (rev s))). isspace c"
    by (auto dest: set_takeWhileD)
  from split_acc_trailing [OF this, of "[]" "rstrip s"] s show ?thesis
    by (simp add: split_ws_def)
qed

lemma split_ws_strip: "split_ws (strip s) = split_ws s"
  by (simp add: strip_def split_ws_rstrip split_ws_lstrip)

lemma split_acc_nonempty: "cur \<noteq> [] \<Longrightarrow> split_acc cur s \<noteq> []"
  by (induction s arbitrary: cur) auto

lemma split_ws_nonblank: "strip s \<noteq> [] \<Longrightarrow> split_ws s \<noteq> []"
proof -
  assume "strip s \<noteq> []"
  then have "lstrip s \<noteq> []" using strip_nonblank by blast
  then obtain c cs where l: "lstrip s = c # cs" by (cases "lstrip s") auto
  have "dropWhile isspace s \<noteq> []" using l by (simp add: lstrip_def)
  then have "\<not> isspace (hd (dropWhile isspace s))" by (rule hd_dropWhile)
  then have "\<not> isspace c" using l by (simp add: lstrip_def)
  then have "split_ws (c # cs) \<noteq> []" by (simp add: split_ws_def split_acc_nonempty)
  then show ?thesis using l split_ws_lstrip [of s] by simp
qed

lemma length_split_acc_cur:
  "cur \<noteq> [] \<Longrightarrow> cur' \<noteq> [] \<Longrightarrow> length (split_acc cur s) = length (split_acc cur' s)"
proof (induction s arbitrary: cur cur')
  case Nil
  then show ?case by simp
next
  case (Cons c cs)
  show ?case
  proof (cases "isspace c")
    case True
    with Cons.prems show ?thesis by simp
  next
    case False
    have "length (split_acc (cur @ [c]) cs) = length (split_acc (cur' @ [c]) cs)"
      by (rule Cons.IH) simp_all
    with False show ?thesis by simp
  qed
qed

lemma length_split_acc_le: "length (split_acc [] s) \<le> length (split_acc cur s)"
proof (induction s arbitrary: cur)
  case Nil
  then show ?case by simp
next
  case (Cons c cs)
  show ?case
  proof (cases "isspace c")
    case True
    then show ?thesis by simp
  next
    case False
    have "length (split_acc ([] @ [c]) cs) = length (split_acc (cur @ [c]) cs)"
      by (rule length_split_acc_cur) simp_all
    with False show ?thesis by simp
  qed
qed

lemma length_split_ws_tl: "length (split_ws cs) \<le> length (split_ws (c # cs))"
  using length_split_acc_le [of cs "[c]"] by (simp add: split_ws_def)

lemma length_split_ws_drop: "length (split_ws (drop k s)) \<le> length (split_ws s)"
proof (induction s arbitrary: k)
  case Nil
  then show ?case by simp
next
  case (Cons c cs)
  show ?case
  proof (cases k)
    case 0
    then show ?thesis by simp
  next
    case (Suc j)
    have "length (split_ws (drop j cs)) \<le> length (split_ws cs)" by (rule Cons.IH)
    also have "\<dots> \<le> length (split_ws (c # cs))" by (rule length_split_ws_tl)
    finally show ?thesis using Suc by simp
  qed
qed

subsection \<open>join\<close>

lemma join_Cons: "ws \<noteq> [] \<Longrightarrow> join sep (w # ws) = w @ sep @ join sep ws"
  by (cases ws) auto

lemma split_ws_join: "\<forall>w \<in> set ws. is_word w \<Longrightarrow> split_ws (join '' '' ws) = ws"
proof (induction ws)
  case Nil
  then show ?case by (simp add: split_ws_def)
next
  case (Cons w ws)
  then have w: "w \<noteq> []" "\<forall>c \<in> set w. \<not> isspace c" by (auto simp: is_word_def)
  show ?case
  proof (cases "ws = []")
    case True
    have "split_acc [] (w @ []) = split_acc ([] @ w) []" using w(2) by (rule split_acc_word)
    then show ?thesis using True w(1) by (simp add: split_ws_def)
  next
    case False
    have "split_acc [] (w @ '' '' @ join '' '' ws) = split_acc ([] @ w) ('' '' @ join '' '' ws)"
      using w(2) by (rule split_acc_word)
    also have "\<dots> = w # split_acc [] (join '' '' ws)"
      using w(1) by (simp add: isspace_space)
    finally show ?thesis using False Cons by (simp add: join_Cons split_ws_def)
  qed
qed

lemma join_words_shape:
  "ws \<noteq> [] \<Longrightarrow> \<forall>w \<in> set ws. is_word w \<Longrightarrow>
     join '' '' ws \<noteq> [] \<and> hd (join '' '' ws) = hd (hd ws)
     \<and> \<not> isspace (last (join '' '' ws)) \<and> LF \<notin> set (join '' '' ws)"
proof (induction ws)
  case Nil
  then show ?case by simp
next
  case (Cons w ws)
  then have w: "w \<noteq> []" "\<forall>c \<in> set w. \<not> isspace c" by (auto simp: is_word_def)
  have nl: "LF \<notin> set w" using w(2) isspace_LF by auto
  show ?case
  proof (cases "ws = []")
    case True
    then show ?thesis using w nl by simp
  next
    case False
    with Cons have ih: "join '' '' ws \<noteq> []" "\<not> isspace (last (join '' '' ws))"
      "LF \<notin> set (join '' '' ws)" by auto
    show ?thesis using False w nl ih by (simp add: join_Cons LF_def)
  qed
qed

lemma strip_join: "ws \<noteq> [] \<Longrightarrow> \<forall>w \<in> set ws. is_word w \<Longrightarrow> strip (join '' '' ws) = join '' '' ws"
proof -
  assume a: "ws \<noteq> []" "\<forall>w \<in> set ws. is_word w"
  from join_words_shape [OF a] have j: "join '' '' ws \<noteq> []" "hd (join '' '' ws) = hd (hd ws)"
    "\<not> isspace (last (join '' '' ws))" by auto
  from a have "is_word (hd ws)" by (cases ws) auto
  then have "\<not> isspace (hd (hd ws))" by (cases "hd ws") (auto simp: is_word_def)
  with j show ?thesis by (intro strip_id) simp_all
qed

subsection \<open>The wrapping loop\<close>

lemma wrap_loop_single:
  "int (length cur + length ws) \<le> max n 1 \<Longrightarrow> cur @ ws \<noteq> [] \<Longrightarrow>
     wrap_loop n cur ws = [join '' '' (cur @ ws)]"
proof (induction ws arbitrary: cur)
  case Nil
  then show ?case by simp
next
  case (Cons w ws)
  show ?case
  proof (cases "int (length (cur @ [w])) \<ge> n")
    case True
    have p: "int (length cur) + 1 + int (length ws) \<le> max n 1" using Cons.prems(1) by simp
    have q: "n \<le> int (length cur) + 1" using True by simp
    from p q have "int (length ws) \<le> 0" by linarith
    then have "ws = []" by simp
    with True show ?thesis by (simp add: Let_def)
  next
    case False
    then have "max n 1 = n" by simp
    then have "int (length (cur @ [w]) + length ws) \<le> max n 1" using Cons.prems(1) by simp
    then have "wrap_loop n (cur @ [w]) ws = [join '' '' ((cur @ [w]) @ ws)]"
      by (rule Cons.IH) simp
    with False show ?thesis by (simp add: Let_def)
  qed
qed

lemma wrap_loop_chunks:
  "int (length cur) < max n 1 \<Longrightarrow>
     \<forall>c \<in> set (wrap_loop n cur ws).
       \<exists>g. c = join '' '' g \<and> g \<noteq> [] \<and> int (length g) \<le> max n 1 \<and> set g \<subseteq> set cur \<union> set ws"
proof (induction ws arbitrary: cur)
  case Nil
  show ?case
  proof (cases "cur = []")
    case True
    then show ?thesis by simp
  next
    case False
    have "cur \<noteq> [] \<and> int (length cur) \<le> max n 1 \<and> set cur \<subseteq> set cur \<union> set []"
      using False Nil.prems by simp
    then show ?thesis using False by auto
  qed
next
  case (Cons w ws)
  show ?case
  proof (cases "int (length (cur @ [w])) \<ge> n")
    case True
    have "int (length (cur @ [w])) \<le> max n 1" using Cons.prems by simp
    then have a: "\<exists>g. join '' '' (cur @ [w]) = join '' '' g \<and> g \<noteq> [] \<and> int (length g) \<le> max n 1
        \<and> set g \<subseteq> set cur \<union> set (w # ws)"
      by (intro exI [of _ "cur @ [w]"]) auto
    have "int (length ([] :: string list)) < max n 1" by simp
    then have "\<forall>c \<in> set (wrap_loop n [] ws).
        \<exists>g. c = join '' '' g \<and> g \<noteq> [] \<and> int (length g) \<le> max n 1 \<and> set g \<subseteq> set [] \<union> set ws"
      by (rule Cons.IH)
    then have b: "\<forall>c \<in> set (wrap_loop n [] ws).
        \<exists>g. c = join '' '' g \<and> g \<noteq> [] \<and> int (length g) \<le> max n 1 \<and> set g \<subseteq> set cur \<union> set (w # ws)"
      by fastforce
    from True a b show ?thesis by (simp add: Let_def)
  next
    case False
    then have "int (length (cur @ [w])) < max n 1" by simp
    from Cons.IH [OF this] have "\<forall>c \<in> set (wrap_loop n (cur @ [w]) ws).
        \<exists>g. c = join '' '' g \<and> g \<noteq> [] \<and> int (length g) \<le> max n 1 \<and> set g \<subseteq> set cur \<union> set (w # ws)"
      by fastforce
    with False show ?thesis by (simp add: Let_def)
  qed
qed

lemma wrap_loop_nonempty: "cur \<noteq> [] \<or> ws \<noteq> [] \<Longrightarrow> wrap_loop n cur ws \<noteq> []"
proof (induction ws arbitrary: cur)
  case Nil
  then show ?case by simp
next
  case (Cons w ws)
  have "wrap_loop n (cur @ [w]) ws \<noteq> []" by (rule Cons.IH) simp
  then show ?case by (simp add: Let_def)
qed

subsection \<open>Splitting into lines and joining them\<close>

lemma split_on_nonempty: "split_on d s \<noteq> []"
  by (induction s) (auto split: list.splits)

lemma split_on_single: "d \<notin> set x \<Longrightarrow> split_on d x = [x]"
  by (induction x) auto

lemma split_on_append: "d \<notin> set x \<Longrightarrow> split_on d (x @ d # rest) = x # split_on d rest"
  by (induction x) auto

lemma split_on_no_sep: "\<forall>l \<in> set (split_on d s). d \<notin> set l"
proof (induction s)
  case Nil
  then show ?case by simp
next
  case (Cons c cs)
  then show ?case by (cases "split_on d cs") auto
qed

lemma split_on_join:
  "ls \<noteq> [] \<Longrightarrow> \<forall>l \<in> set ls. d \<notin> set l \<Longrightarrow> split_on d (join [d] ls) = ls"
proof (induction ls)
  case Nil
  then show ?case by simp
next
  case (Cons l ls)
  show ?case
  proof (cases "ls = []")
    case True
    with Cons.prems show ?thesis by (simp add: split_on_single)
  next
    case False
    with Cons have "split_on d (join [d] ls) = ls" by simp
    with False Cons.prems show ?thesis by (simp add: join_Cons split_on_append)
  qed
qed

lemma concat_map_fixed: "\<forall>l \<in> set ls. f l = [l] \<Longrightarrow> concat (map f ls) = ls"
  by (induction ls) auto

subsection \<open>Blank lines\<close>

lemma strip_Nil_all_space: "strip s = [] \<Longrightarrow> \<forall>c \<in> set s. isspace c"
proof -
  assume "strip s = []"
  then have "dropWhile isspace (rev (lstrip s)) = []" by (simp add: strip_def rstrip_def)
  then have a: "\<forall>c \<in> set (dropWhile isspace s). isspace c" by (simp add: lstrip_def)
  have "set s = set (takeWhile isspace s) \<union> set (dropWhile isspace s)"
    by (metis set_append takeWhile_dropWhile_id)
  with a show ?thesis by (auto dest: set_takeWhileD)
qed

lemma blank_no_words: "strip s = [] \<Longrightarrow> split_ws s = []"
proof -
  assume "strip s = []"
  then have "\<forall>c \<in> set s. isspace c" by (rule strip_Nil_all_space)
  from split_acc_trailing [OF this, of "[]" "[]"] show ?thesis by (simp add: split_ws_def)
qed

subsection \<open>Header lines\<close>

lemma is_header_cases:
  "is_header l \<longleftrightarrow>
     (\<exists>h rest. h \<in> {''Date'', ''Name'', ''URL'', ''Reason''} \<and> l = h @ CHR '':'' # rest)"
proof
  assume "is_header l"
  then consider "prefix ''Date:'' l" | "prefix ''Name:'' l" | "prefix ''URL:'' l" | "prefix ''Reason:'' l"
    by (auto simp: is_header_def headers_def)
  then show "\<exists>h rest. h \<in> {''Date'', ''Name'', ''URL'', ''Reason''} \<and> l = h @ CHR '':'' # rest"
  proof cases
    case 1
    then obtain r where "l = ''Date:'' @ r" by (auto simp: prefix_def)
    then show ?thesis by (intro exI [of _ "''Date''"] exI [of _ r]) simp
  next
    case 2
    then obtain r where "l = ''Name:'' @ r" by (auto simp: prefix_def)
    then show ?thesis by (intro exI [of _ "''Name''"] exI [of _ r]) simp
  next
    case 3
    then obtain r where "l = ''URL:'' @ r" by (auto simp: prefix_def)
    then show ?thesis by (intro exI [of _ "''URL''"] exI [of _ r]) simp
  next
    case 4
    then obtain r where "l = ''Reason:'' @ r" by (auto simp: prefix_def)
    then show ?thesis by (intro exI [of _ "''Reason''"] exI [of _ r]) simp
  qed
next
  assume "\<exists>h rest. h \<in> {''Date'', ''Name'', ''URL'', ''Reason''} \<and> l = h @ CHR '':'' # rest"
  then show "is_header l" by (auto simp: is_header_def headers_def)
qed

lemma header_name_facts:
  assumes "h \<in> {''Date'', ''Name'', ''URL'', ''Reason''}"
  shows "CHR '':'' \<notin> set h" and "LF \<notin> set h"
    and "\<exists>c cs. h = c # cs \<and> \<not> isspace c \<and> c \<noteq> CHR ''=''"
  using assms by (auto simp: isspace_def whitespace_def LF_def)

lemma header_not_blank:
  assumes "h \<in> {''Date'', ''Name'', ''URL'', ''Reason''}"
  shows "strip (h @ r) \<noteq> [] \<and> \<not> is_separator (h @ r)"
proof -
  from header_name_facts(3) [OF assms] obtain c cs
    where h: "h = c # cs" and c: "\<not> isspace c" "c \<noteq> CHR ''=''" by auto
  from strip_keeps_hd [OF c(1), of "cs @ r"] obtain t where "strip (h @ r) = c # t"
    by (auto simp: h)
  with c(2) show ?thesis by (simp add: is_separator_def)
qed

lemma format_line_header:
  assumes "h \<in> {''Date'', ''Name'', ''URL'', ''Reason''}"
  shows "format_line n (h @ CHR '':'' # rest) =
     (if strip rest \<noteq> []
      then (h @ '': '' @ hd (wrap n (split_ws (strip rest)))) # tl (wrap n (split_ws (strip rest)))
      else [h @ CHR '':'' # rest])"
proof -
  let ?l = "h @ CHR '':'' # rest"
  have a: "strip ?l \<noteq> []" "\<not> is_separator ?l"
    using header_not_blank [OF assms, of "CHR '':'' # rest"] by auto
  have b: "is_header ?l" using assms unfolding is_header_cases by blast
  have c: "CHR '':'' \<in> set ?l" by simp
  have nc: "\<forall>x \<in> set h. x \<noteq> CHR '':''" using header_name_facts(1) [OF assms] by auto
  have d: "takeWhile (\<lambda>c. c \<noteq> CHR '':'') ?l = h"
    using nc by (simp add: takeWhile_append2)
  have e: "dropWhile (\<lambda>c. c \<noteq> CHR '':'') ?l = CHR '':'' # rest"
    using nc by (simp add: dropWhile_append2)
  have w: "wrap n (split_ws (strip rest)) \<noteq> []" if "strip rest \<noteq> []"
  proof -
    from that have "split_ws rest \<noteq> []" by (rule split_ws_nonblank)
    then have "split_ws (strip rest) \<noteq> []" by (simp add: split_ws_strip)
    then show ?thesis unfolding wrap_def by (intro wrap_loop_nonempty) simp
  qed
  show ?thesis
    unfolding format_line_def using a b c w by (simp only: d e Let_def) simp
qed

lemma header_stable:
  assumes "h \<in> {''Date'', ''Name'', ''URL'', ''Reason''}"
    and "g \<noteq> []" and "\<forall>w \<in> set g. is_word w" and "int (length g) \<le> max n 1"
  shows "format_line n (h @ '': '' @ join '' '' g) = [h @ '': '' @ join '' '' g]"
proof -
  let ?j = "join '' '' g"
  have s: "strip (CHR '' '' # ?j) = ?j"
    using strip_join [OF assms(2,3)] by (simp add: strip_space_Cons isspace_space)
  have ne: "?j \<noteq> []" using join_words_shape [OF assms(2,3)] by simp
  have sp: "split_ws ?j = g" using assms(3) by (rule split_ws_join)
  have "wrap_loop n [] g = [join '' '' ([] @ g)]"
    using assms(2,4) by (intro wrap_loop_single) simp_all
  then have w: "wrap n g = [?j]" by (simp add: wrap_def)
  have "format_line n (h @ CHR '':'' # (CHR '' '' # ?j)) = [h @ '': '' @ ?j]"
    by (simp only: format_line_header [OF assms(1)] s sp w) (simp add: ne)
  then show ?thesis by simp
qed

lemma plain_line:
  "strip l \<noteq> [] \<Longrightarrow> \<not> is_separator l \<Longrightarrow> \<not> is_header l \<Longrightarrow>
     format_line n l = (if int (length (split_ws l)) > n then wrap n (split_ws l) else [l])"
  by (simp add: format_line_def Let_def)

lemma blank_or_separator_line:
  "strip l = [] \<or> is_separator l \<Longrightarrow> format_line n l = [l]"
  by (auto simp: format_line_def)

subsection \<open>One line through the formatter\<close>

lemma wrap_chunks:
  "\<forall>c \<in> set (wrap n (split_ws s)).
     \<exists>g. c = join '' '' g \<and> g \<noteq> [] \<and> (\<forall>w \<in> set g. is_word w) \<and> int (length g) \<le> max n 1"
proof
  fix c assume "c \<in> set (wrap n (split_ws s))"
  then have "c \<in> set (wrap_loop n [] (split_ws s))" by (simp add: wrap_def)
  moreover have "int (length ([] :: string list)) < max n 1" by simp
  ultimately obtain g where g: "c = join '' '' g" "g \<noteq> []" "int (length g) \<le> max n 1"
    "set g \<subseteq> set [] \<union> set (split_ws s)"
    using wrap_loop_chunks [of "[]" n "split_ws s"] by blast
  from g(4) split_ws_words [of s] have "\<forall>w \<in> set g. is_word w" by auto
  with g show "\<exists>g. c = join '' '' g \<and> g \<noteq> [] \<and> (\<forall>w \<in> set g. is_word w)
      \<and> int (length g) \<le> max n 1"
    by blast
qed

text \<open>A line that the wrapping loop produced is fixed by the next pass or the one after.\<close>

lemma chunk_second_pass:
  assumes "g \<noteq> []" and "\<forall>w \<in> set g. is_word w" and "int (length g) \<le> max n 1"
  shows "\<exists>l'. format_line n (join '' '' g) = [l'] \<and> format_line n l' = [l'] \<and> LF \<notin> set l'"
proof -
  let ?c = "join '' '' g"
  have nl: "LF \<notin> set ?c" using join_words_shape [OF assms(1,2)] by simp
  have sp: "split_ws ?c = g" using assms(2) by (rule split_ws_join)
  have st: "strip ?c \<noteq> []" using strip_join [OF assms(1,2)] join_words_shape [OF assms(1,2)] by simp
  have same: ?thesis if "format_line n ?c = [?c]"
    using that nl by (intro exI [of _ ?c]) simp
  show ?thesis
  proof (cases "is_separator ?c")
    case True
    then have "format_line n ?c = [?c]" by (intro blank_or_separator_line) simp
    then show ?thesis by (rule same)
  next
    case False
    show ?thesis
    proof (cases "is_header ?c")
      case nh: False
      have "wrap_loop n [] g = [join '' '' ([] @ g)]"
        using assms(1,3) by (intro wrap_loop_single) simp_all
      then have "wrap n g = [?c]" by (simp add: wrap_def)
      with st False nh have "format_line n ?c = [?c]" by (simp add: plain_line sp)
      then show ?thesis by (rule same)
    next
      case True
      then obtain h rest where h: "h \<in> {''Date'', ''Name'', ''URL'', ''Reason''}"
        and l: "?c = h @ CHR '':'' # rest" unfolding is_header_cases by blast
      show ?thesis
      proof (cases "strip rest = []")
        case True
        then have "format_line n ?c = [?c]" by (simp add: l format_line_header [OF h])
        then show ?thesis by (rule same)
      next
        case ne: False
        let ?cw = "split_ws (strip rest)"
        have g1: "?cw \<noteq> []" using split_ws_nonblank [OF ne] by (simp add: split_ws_strip)
        have g2: "\<forall>w \<in> set ?cw. is_word w" by (rule split_ws_words)
        have "rest = drop (Suc (length h)) ?c" by (simp add: l)
        then have "length (split_ws rest) \<le> length (split_ws ?c)"
          using length_split_ws_drop [of "Suc (length h)" ?c] by simp
        then have g3: "int (length ?cw) \<le> max n 1" using assms(3) by (simp add: split_ws_strip sp)
        have "wrap_loop n [] ?cw = [join '' '' ([] @ ?cw)]"
          using g1 g3 by (intro wrap_loop_single) simp_all
        then have w: "wrap n ?cw = [join '' '' ?cw]" by (simp add: wrap_def)
        let ?l' = "h @ '': '' @ join '' '' ?cw"
        have "format_line n (h @ CHR '':'' # rest) = [?l']"
          using ne by (simp add: format_line_header [OF h] w)
        then have f: "format_line n ?c = [?l']" by (simp only: l)
        have s': "format_line n ?l' = [?l']" using h g1 g2 g3 by (rule header_stable)
        have nl': "LF \<notin> set ?l'"
          using header_name_facts(2) [OF h] join_words_shape [OF g1 g2] by (simp add: LF_def)
        from f s' nl' show ?thesis by blast
      qed
    qed
  qed
qed

text \<open>
  Every line that one pass puts out is free of line feeds, and it is either fixed by the
  next pass or a line that the wrapping loop produced.
\<close>

lemma format_line_outputs:
  assumes "LF \<notin> set l" and "l' \<in> set (format_line n l)"
  shows "LF \<notin> set l' \<and>
     (format_line n l' = [l'] \<or>
      (\<exists>g. l' = join '' '' g \<and> g \<noteq> [] \<and> (\<forall>w \<in> set g. is_word w) \<and> int (length g) \<le> max n 1))"
proof -
  have same: ?thesis if "format_line n l = [l]"
    using that assms by simp
  have chunk: ?thesis if "l' \<in> set (wrap n (split_ws s))" for s
  proof -
    from that wrap_chunks [of n s] obtain g where g: "l' = join '' '' g" "g \<noteq> []"
      "\<forall>w \<in> set g. is_word w" "int (length g) \<le> max n 1" by blast
    have "LF \<notin> set l'" using join_words_shape [OF g(2,3)] by (simp add: g(1))
    with g show ?thesis by blast
  qed
  show ?thesis
  proof (cases "strip l = [] \<or> is_separator l")
    case True
    then show ?thesis by (intro same blank_or_separator_line)
  next
    case False
    show ?thesis
    proof (cases "is_header l")
      case nh: False
      show ?thesis
      proof (cases "int (length (split_ws l)) > n")
        case True
        with False nh assms(2) have "l' \<in> set (wrap n (split_ws l))" by (simp add: plain_line)
        then show ?thesis by (rule chunk)
      next
        case few: False
        with False nh have "format_line n l = [l]" by (simp add: plain_line)
        then show ?thesis by (rule same)
      qed
    next
      case True
      then obtain h rest where h: "h \<in> {''Date'', ''Name'', ''URL'', ''Reason''}"
        and l: "l = h @ CHR '':'' # rest" unfolding is_header_cases by blast
      show ?thesis
      proof (cases "strip rest = []")
        case True
        then have "format_line n l = [l]" by (simp add: l format_line_header [OF h])
        then show ?thesis by (rule same)
      next
        case ne: False
        let ?cl = "wrap n (split_ws (strip rest))"
        have cl: "?cl \<noteq> []"
        proof -
          have "split_ws (strip rest) \<noteq> []"
            using split_ws_nonblank [OF ne] by (simp add: split_ws_strip)
          then show ?thesis unfolding wrap_def by (intro wrap_loop_nonempty) simp
        qed
        have f: "format_line n l = (h @ '': '' @ hd ?cl) # tl ?cl"
          using ne by (simp add: l format_line_header [OF h])
        from assms(2) f consider "l' = h @ '': '' @ hd ?cl" | "l' \<in> set (tl ?cl)" by auto
        then show ?thesis
        proof cases
          case 1
          have "hd ?cl \<in> set ?cl" using cl by simp
          with wrap_chunks [of n "strip rest"] obtain g where g: "hd ?cl = join '' '' g"
            "g \<noteq> []" "\<forall>w \<in> set g. is_word w" "int (length g) \<le> max n 1" by blast
          have s': "format_line n l' = [l']"
            unfolding 1 g(1) using h g(2,3,4) by (rule header_stable)
          have nl: "LF \<notin> set l'"
            using header_name_facts(2) [OF h] join_words_shape [OF g(2,3)]
            by (simp add: 1 g(1) LF_def)
          from s' nl show ?thesis by simp
        next
          case 2
          then have "l' \<in> set ?cl" by (rule list.set_sel(2) [OF cl])
          then show ?thesis by (rule chunk)
        qed
      qed
    qed
  qed
qed

lemma format_line_nonempty: "format_line n l \<noteq> []"
proof (cases "strip l = [] \<or> is_separator l")
  case True
  then show ?thesis by (simp add: blank_or_separator_line)
next
  case False
  show ?thesis
  proof (cases "is_header l")
    case True
    then obtain h rest where h: "h \<in> {''Date'', ''Name'', ''URL'', ''Reason''}"
      and l: "l = h @ CHR '':'' # rest" unfolding is_header_cases by blast
    show ?thesis by (simp add: l format_line_header [OF h])
  next
    case nh: False
    have "split_ws l \<noteq> []" using False by (intro split_ws_nonblank) simp
    then have "wrap n (split_ws l) \<noteq> []" unfolding wrap_def by (intro wrap_loop_nonempty) simp
    with False nh show ?thesis by (simp add: plain_line)
  qed
qed

text \<open>With a threshold of at least 1, a line that a pass leaves as it is is within it.\<close>

lemma fixed_line_within_threshold:
  assumes "1 \<le> n" and "format_line n l = [l]"
  shows "within_threshold n l"
proof (cases "strip l = []")
  case True
  then show ?thesis using assms(1) by (simp add: within_threshold_def blank_no_words)
next
  case False
  show ?thesis
  proof (cases "is_separator l \<or> is_header l")
    case True
    then show ?thesis by (auto simp: within_threshold_def)
  next
    case plain: False
    show ?thesis
    proof (cases "int (length (split_ws l)) > n")
      case few: False
      then show ?thesis by (simp add: within_threshold_def)
    next
      case True
      with False plain assms(2) have "l \<in> set (wrap n (split_ws l))" by (simp add: plain_line)
      with wrap_chunks [of n l] obtain g where g: "l = join '' '' g" "g \<noteq> []"
        "\<forall>w \<in> set g. is_word w" "int (length g) \<le> max n 1" by blast
      have "split_ws l = g" using split_ws_join [OF g(3)] by (simp add: g(1))
      with g(4) assms(1) have "int (length (split_ws l)) \<le> n" by simp
      with True show ?thesis by simp
    qed
  qed
qed

lemma format_text_lines:
  assumes "ls \<noteq> []" and "\<forall>l \<in> set ls. LF \<notin> set l"
  shows "format_text_with_line_breaks (join [LF] ls) n =
           join [LF] (concat (map (format_line n) ls))"
  using assms by (simp add: format_text_with_line_breaks_def split_on_join)

lemma concat_format_nonempty:
  assumes "ls \<noteq> []"
  shows "concat (map (format_line n) ls) \<noteq> []"
proof -
  from assms obtain l ls' where "ls = l # ls'" by (cases ls) auto
  then show ?thesis using format_line_nonempty [of n l] by simp
qed

lemma second_pass:
  assumes "LF \<notin> set l" and "l' \<in> set (format_line n l)"
  shows "LF \<notin> set l' \<and> (\<exists>l''. format_line n l' = [l''] \<and> format_line n l'' = [l'']
           \<and> LF \<notin> set l'')"
proof -
  from format_line_outputs [OF assms] have nl: "LF \<notin> set l'"
    and c: "format_line n l' = [l'] \<or>
      (\<exists>g. l' = join '' '' g \<and> g \<noteq> [] \<and> (\<forall>w \<in> set g. is_word w) \<and> int (length g) \<le> max n 1)"
    by auto
  from c have "\<exists>l''. format_line n l' = [l''] \<and> format_line n l'' = [l''] \<and> LF \<notin> set l''"
  proof
    assume "format_line n l' = [l']"
    with nl show ?thesis by blast
  next
    assume "\<exists>g. l' = join '' '' g \<and> g \<noteq> [] \<and> (\<forall>w \<in> set g. is_word w) \<and> int (length g) \<le> max n 1"
    then obtain g where g: "l' = join '' '' g" "g \<noteq> []" "\<forall>w \<in> set g. is_word w"
      "int (length g) \<le> max n 1" by blast
    from chunk_second_pass [OF g(2,3,4)] show ?thesis by (simp only: g(1))
  qed
  with nl show ?thesis by simp
qed

text \<open>
  C9, amended. For every input text and every words-per-line setting, the third
  application of the formatter gives the text of the second. For every setting of at
  least 1, every line after the second application is a header line, a separator line
  (its stripped text begins with \<open>====\<close>), or has no more words than the threshold.
\<close>

theorem formatter_fixed_point_after_two:
  "format_text_with_line_breaks
     (format_text_with_line_breaks (format_text_with_line_breaks text n) n) n
   = format_text_with_line_breaks (format_text_with_line_breaks text n) n
   \<and> (1 \<le> n \<longrightarrow>
        list_all (within_threshold n)
          (split_on LF (format_text_with_line_breaks (format_text_with_line_breaks text n) n)))"
proof -
  let ?f = "format_line n"
  let ?L0 = "split_on LF text"
  let ?L1 = "concat (map ?f ?L0)"
  let ?L2 = "concat (map ?f ?L1)"
  have L0: "?L0 \<noteq> []" "\<forall>l \<in> set ?L0. LF \<notin> set l"
    by (simp_all add: split_on_nonempty split_on_no_sep)
  have L1ne: "?L1 \<noteq> []" using L0(1) by (rule concat_format_nonempty)
  have L1: "LF \<notin> set l' \<and> (\<exists>l''. ?f l' = [l''] \<and> ?f l'' = [l''] \<and> LF \<notin> set l'')"
    if "l' \<in> set ?L1" for l'
  proof -
    from that obtain l where l: "l \<in> set ?L0" "l' \<in> set (?f l)" by auto
    from L0(2) l(1) have "LF \<notin> set l" by simp
    then show ?thesis using l(2) by (rule second_pass)
  qed
  have L2ne: "?L2 \<noteq> []" using L1ne by (rule concat_format_nonempty)
  have L2: "?f l'' = [l''] \<and> LF \<notin> set l''" if "l'' \<in> set ?L2" for l''
  proof -
    from that obtain l' where l': "l' \<in> set ?L1" "l'' \<in> set (?f l')" by auto
    from L1 [OF l'(1)] obtain m where "?f l' = [m]" "?f m = [m]" "LF \<notin> set m" by blast
    with l'(2) show ?thesis by simp
  qed
  have L1nl: "\<forall>l \<in> set ?L1. LF \<notin> set l" using L1 by blast
  have L2nl: "\<forall>l \<in> set ?L2. LF \<notin> set l" using L2 by blast
  have L2st: "\<forall>l \<in> set ?L2. ?f l = [l]" using L2 by blast
  have F1: "format_text_with_line_breaks text n = join [LF] ?L1"
    by (simp add: format_text_with_line_breaks_def)
  have F2: "format_text_with_line_breaks (join [LF] ?L1) n = join [LF] ?L2"
    using L1ne L1nl by (rule format_text_lines)
  have "format_text_with_line_breaks (join [LF] ?L2) n = join [LF] (concat (map ?f ?L2))"
    using L2ne L2nl by (rule format_text_lines)
  moreover have "concat (map ?f ?L2) = ?L2"
    using L2st by (rule concat_map_fixed)
  ultimately have F3: "format_text_with_line_breaks (join [LF] ?L2) n = join [LF] ?L2"
    by simp
  have sp: "split_on LF (join [LF] ?L2) = ?L2"
    using L2ne L2nl by (rule split_on_join)
  have ok: "list_all (within_threshold n) (split_on LF (join [LF] ?L2))" if "1 \<le> n"
  proof -
    have "\<forall>l \<in> set ?L2. within_threshold n l"
      using L2st fixed_line_within_threshold [OF that] by blast
    then have "list_all (within_threshold n) ?L2" by (simp only: list_all_iff)
    then show ?thesis by (simp only: sp)
  qed
  have a: "format_text_with_line_breaks
     (format_text_with_line_breaks (format_text_with_line_breaks text n) n) n
   = format_text_with_line_breaks (format_text_with_line_breaks text n) n"
    by (simp only: F1 F2 F3)
  have b: "1 \<le> n \<longrightarrow>
        list_all (within_threshold n)
          (split_on LF (format_text_with_line_breaks (format_text_with_line_breaks text n) n))"
    using ok by (simp only: F1 F2) blast
  from a b show ?thesis by (rule conjI)
qed

theorem formatter_fixed_point_after_two_witness:
  "format_text_with_line_breaks
     (format_text_with_line_breaks (format_text_with_line_breaks ''p q Name:r s t u'' 2) 2) 2
   = format_text_with_line_breaks (format_text_with_line_breaks ''p q Name:r s t u'' 2) 2
   \<and> list_all (within_threshold 2)
       (split_on LF
          (format_text_with_line_breaks (format_text_with_line_breaks ''p q Name:r s t u'' 2) 2))"
proof -
  have h: "(1::int) \<le> 2" by simp
  from formatter_fixed_point_after_two [of "''p q Name:r s t u''" 2] h
  show ?thesis by blast
qed

text \<open>
  C9 as stated fails in its threshold half: a line that begins with \<open>====\<close> is kept
  as it is, so with the threshold 1 the line \<open>==== a b\<close>, which is not a header line,
  keeps its three words; and with the threshold 0 the one-word line \<open>a\<close> is a fixed
  point with more words than the threshold.
\<close>

theorem long_separator_line_counterexample:
  "format_text_with_line_breaks (format_text_with_line_breaks ''==== a b'' 1) 1 = ''==== a b''
   \<and> \<not> is_header ''==== a b'' \<and> 1 < int (length (split_ws ''==== a b''))
   \<and> format_text_with_line_breaks (format_text_with_line_breaks ''a'' 0) 0 = ''a''
   \<and> \<not> is_header ''a'' \<and> 0 < int (length (split_ws ''a''))"
  by code_simp

end
